theory Spec2Isabelle
  imports Complex_Main
begin

section \<open>Errors\<close>

text \<open>
  Every exception that the modelled code can raise is a value.  \<open>NotFound\<close> is
  werkzeug's exception raised by the service and the storages.  \<open>Immutable\<close> is the
  specification's name for the failure of a write through a handle that \<open>get\<close> returned
  (the test of the filesystem storage expects Python's \<open>IOError\<close> there).  The others
  are Python's built-in exceptions.
\<close>

datatype error =
    NotFound
  | ZeroDivisionError
  | OverflowError
  | ValueError
  | KeyError
  | IOError
  | AttributeError
  | Immutable

section \<open>Python floats\<close>

text \<open>
  \<open>_calc_size\<close> computes with Python floats, which are IEEE 754 binary64 numbers.
  A finite float is modelled by the rational number it denotes; both zeros are the
  rational \<open>0\<close> (the sign of a zero cannot be observed through the operations used
  here, because Python raises on a division by zero).  Every operation first computes the
  exact rational result and then rounds it to the nearest float, ties to the even
  significand.
\<close>

function bit_length :: "int \<Rightarrow> int" where
  "bit_length n = (if n \<le> 0 then 0 else 1 + bit_length (n div 2))"
  by pat_completeness auto
termination
  by (relation "measure nat") auto

declare bit_length.simps [simp del]

definition ilog2_adjust :: "rat \<Rightarrow> int \<Rightarrow> int" where
  "ilog2_adjust x e = (if 2 powi e \<le> x then e else e - 1)"

text \<open>The binary exponent of a positive rational: \<open>2 powi e \<le> x < 2 powi (e + 1)\<close>.\<close>

definition ilog2 :: "rat \<Rightarrow> int" where
  "ilog2 x = (case quotient_of x of (p, q) \<Rightarrow> ilog2_adjust x (bit_length p - bit_length q))"

definition nearest_even :: "int \<Rightarrow> rat \<Rightarrow> int" where
  "nearest_even f d =
     (if d < 1 / 2 then f else if 1 / 2 < d then f + 1 else if even f then f else f + 1)"

definition round_half_even :: "rat \<Rightarrow> int" where
  "round_half_even x = nearest_even \<lfloor>x\<rfloor> (x - of_int \<lfloor>x\<rfloor>)"

definition quantize :: "rat \<Rightarrow> rat \<Rightarrow> rat" where
  "quantize q x = of_int (round_half_even (x / q)) * q"

text \<open>
  Rounding to 53 significant bits.  Below the smallest normal number \<open>2 powi - 1022\<close>
  the spacing of the floats stays \<open>2 powi - 1074\<close> (subnormal numbers).
\<close>

definition round_double :: "rat \<Rightarrow> rat" where
  "round_double x =
     (if x = 0 then 0 else quantize (2 powi (max (ilog2 \<bar>x\<bar>) (- 1022) - 52)) x)"

datatype double = Finite rat | Inf bool | NaN

text \<open>\<open>Inf True\<close> is positive infinity, \<open>Inf False\<close> negative infinity.\<close>

definition overflow_check :: "rat \<Rightarrow> double" where
  "overflow_check r = (if r \<noteq> 0 \<and> 1023 < ilog2 \<bar>r\<bar> then Inf (0 < r) else Finite r)"

definition to_double :: "rat \<Rightarrow> double" where
  "to_double x = overflow_check (round_double x)"

text \<open>\<open>float(n)\<close> for a Python integer: \<open>OverflowError\<close> when \<open>n\<close> is too large.\<close>

definition py_float :: "int \<Rightarrow> error + double" where
  "py_float n = (case to_double (of_int n) of Inf s \<Rightarrow> Inl OverflowError | d \<Rightarrow> Inr d)"

text \<open>Float division: Python raises \<open>ZeroDivisionError\<close> when the divisor is zero.\<close>

fun float_div :: "double \<Rightarrow> double \<Rightarrow> error + double" where
  "float_div NaN (Finite b) = (if b = 0 then Inl ZeroDivisionError else Inr NaN)"
| "float_div (Inf s) (Finite b) =
     (if b = 0 then Inl ZeroDivisionError else Inr (Inf (s = (0 < b))))"
| "float_div (Finite a) (Finite b) =
     (if b = 0 then Inl ZeroDivisionError else Inr (to_double (a / b)))"
| "float_div (Finite a) (Inf t) = Inr (Finite 0)"
| "float_div (Inf s) (Inf t) = Inr NaN"
| "float_div NaN (Inf t) = Inr NaN"
| "float_div a NaN = Inr NaN"

fun float_mul :: "double \<Rightarrow> double \<Rightarrow> double" where
  "float_mul (Finite a) (Finite b) = to_double (a * b)"
| "float_mul (Finite a) (Inf t) = (if a = 0 then NaN else Inf (t = (0 < a)))"
| "float_mul (Inf s) (Finite b) = (if b = 0 then NaN else Inf (s = (0 < b)))"
| "float_mul (Inf s) (Inf t) = Inf (s = t)"
| "float_mul NaN b = NaN"
| "float_mul a NaN = NaN"

fun float_lt :: "double \<Rightarrow> double \<Rightarrow> bool" where
  "float_lt (Finite a) (Finite b) = (a < b)"
| "float_lt (Finite a) (Inf t) = t"
| "float_lt (Inf s) (Finite b) = (\<not> s)"
| "float_lt (Inf s) (Inf t) = (\<not> s \<and> t)"
| "float_lt NaN b = False"
| "float_lt a NaN = False"

text \<open>\<open>min(a, b)\<close> keeps the first argument unless the second is smaller.\<close>

definition py_min :: "double \<Rightarrow> double \<Rightarrow> double" where
  "py_min a b = (if float_lt b a then b else a)"

text \<open>\<open>int(x)\<close> of a float truncates towards zero.\<close>

definition trunc_zero :: "rat \<Rightarrow> int" where
  "trunc_zero r = (if 0 \<le> r then \<lfloor>r\<rfloor> else \<lceil>r\<rceil>)"

fun py_int :: "double \<Rightarrow> error + int" where
  "py_int (Finite r) = Inr (trunc_zero r)"
| "py_int (Inf s) = Inl OverflowError"
| "py_int NaN = Inl ValueError"

section \<open>The size calculation\<close>

text \<open>
  Sequencing of computations that may raise: the first exception ends the computation.
\<close>

definition and_then :: "error + 'a \<Rightarrow> ('a \<Rightarrow> error + 'b) \<Rightarrow> error + 'b" where
  "and_then r f = (case r of Inl e \<Rightarrow> Inl e | Inr v \<Rightarrow> f v)"

text \<open>\<open>m / float(d)\<close>: the divisor is converted first, then the dividend.\<close>

definition int_over_float :: "int \<Rightarrow> int \<Rightarrow> error + double" where
  "int_over_float m d =
     and_then (py_float d) (\<lambda>fd. and_then (py_float m) (\<lambda>fm. float_div fm fd))"

text \<open>\<open>int(d * scale)\<close> for an integer \<open>d\<close> and a float \<open>scale\<close>.\<close>

definition int_scaled :: "int \<Rightarrow> double \<Rightarrow> error + int" where
  "int_scaled d scale = and_then (py_float d) (\<lambda>fd. py_int (float_mul fd scale))"

text \<open>
  \<open>_calc_size(target_size, image)\<close>; the image is given by its \<open>size\<close> attribute.
\<close>

definition calc_size :: "int \<times> int \<Rightarrow> int \<times> int \<Rightarrow> error + int \<times> int" where
  "calc_size target_size image_size =
     (case target_size of (max_width, max_height) \<Rightarrow>
     (case image_size of (width, height) \<Rightarrow>
        if max_width \<ge> width \<and> max_height \<ge> height then Inr image_size
        else
          and_then (int_over_float max_width width) (\<lambda>a.
          and_then (int_over_float max_height height) (\<lambda>b.
          let scale = py_min a b in
          and_then (int_scaled width scale) (\<lambda>out_width.
          and_then (int_scaled height scale) (\<lambda>out_height.
            Inr (out_width, out_height)))))))"

section \<open>The size calculation as specified\<close>

text \<open>
  The contract of the specification, in its words: a degenerate source size fails
  (\<open>None\<close> stands for \<open>InvalidSource\<close>), a source that fits the box is returned unchanged,
  and otherwise \<open>scale = min (maxW / w) (maxH / h)\<close> with exact division and both
  dimensions are \<open>floor (scale * dimension)\<close>.  Quotients of integers are rational, so the
  rational numbers compute the real-valued division exactly.
\<close>

definition spec_scale :: "int \<times> int \<Rightarrow> int \<times> int \<Rightarrow> rat" where
  "spec_scale box src =
     (case box of (maxW, maxH) \<Rightarrow> (case src of (w, h) \<Rightarrow>
        min (of_int maxW / of_int w) (of_int maxH / of_int h)))"

definition spec_fit :: "int \<times> int \<Rightarrow> int \<times> int \<Rightarrow> (int \<times> int) option" where
  "spec_fit box src =
     (case box of (maxW, maxH) \<Rightarrow> (case src of (w, h) \<Rightarrow>
        if w \<le> 0 \<or> h \<le> 0 then None
        else if maxW \<ge> w \<and> maxH \<ge> h then Some (w, h)
        else Some (\<lfloor>spec_scale box src * of_int w\<rfloor>, \<lfloor>spec_scale box src * of_int h\<rfloor>)))"

text \<open>
  A computed dimension \<open>out\<close> is near the floor of the exact value \<open>y\<close>: it is the floor,
  or \<open>y\<close> is an integer and \<open>out\<close> is one less.
\<close>

definition near_floor :: "rat \<Rightarrow> int \<Rightarrow> bool" where
  "near_floor y out \<longleftrightarrow> out = \<lfloor>y\<rfloor> \<or> (y = of_int \<lfloor>y\<rfloor> \<and> out = \<lfloor>y\<rfloor> - 1)"

section \<open>The image storage\<close>

type_synonym bytes = string

text \<open>
  An image is identified by project, name, extension and size; the size \<open>None\<close> is the
  original image.
\<close>

type_synonym key = "string \<times> string \<times> string \<times> string option"

datatype backend = LocalFile | RemoteRecord

record store =
  kind :: backend
  artifacts :: "key \<rightharpoonup> bytes"

text \<open>
  Modelled from the spec: what \<open>get\<close> of the missing storage implementations returns,
  a file object on a stored image.  It names the artifact that it views, tells whether it
  may be written through, and holds the bytes that it reads.
\<close>

record handle =
  target :: key
  writable :: bool
  buffer :: bytes

text \<open>
  Modelled from the spec: the two implementations of \<open>ImageStorage\<close>
  (\<open>storage/filesystem.py\<close> and \<open>storage/appengine_datastore.py\<close>) are not part of the
  sources; \<open>ImageStorage\<close> itself only declares \<open>exists\<close>, \<open>save\<close> and \<open>get\<close>.
  \<open>exists\<close> never fails and is false for a key without artifact.
\<close>

definition store_exists :: "store \<Rightarrow> key \<Rightarrow> bool" where
  "store_exists s k \<longleftrightarrow> artifacts s k \<noteq> None"

text \<open>
  Modelled from the spec: \<open>save\<close> of the missing storage implementations creates the
  artifact or replaces the one that is there.
\<close>

definition store_save :: "store \<Rightarrow> key \<Rightarrow> bytes \<Rightarrow> store" where
  "store_save s k data = s\<lparr>artifacts := (artifacts s)(k \<mapsto> data)\<rparr>"

text \<open>
  Modelled from the spec: \<open>get\<close> of the missing storage implementations fails with
  \<open>NotFound\<close> for a key without artifact and otherwise returns a read-only view of its
  bytes.
\<close>

definition store_get :: "store \<Rightarrow> key \<Rightarrow> error + handle" where
  "store_get s k =
     (case artifacts s k of
        None \<Rightarrow> Inl NotFound
      | Some data \<Rightarrow> Inr \<lparr>target = k, writable = False, buffer = data\<rparr>)"

text \<open>
  Modelled from the spec: \<open>write\<close> on a handle of the missing storage implementations.
  A write through a read-only view fails with \<open>Immutable\<close> and the storage stays as it
  is, whichever of the two storages it is.  Through a writable handle, which \<open>get\<close> never
  returns, the bytes would replace the start of the artifact that the handle views.
\<close>

definition handle_write :: "store \<Rightarrow> handle \<Rightarrow> bytes \<Rightarrow> (error + unit) \<times> store" where
  "handle_write s h data =
     (if writable h
      then (Inr (),
            s\<lparr>artifacts := (artifacts s)(target h \<mapsto> data @ drop (length data) (buffer h))\<rparr>)
      else (Inl Immutable, s))"

section \<open>The service\<close>

text \<open>
  The codec (PIL) is a parameter: \<open>Image.open\<close>, the \<open>size\<close> attribute, \<open>resize\<close> and
  \<open>save\<close> as JPEG.  Each of them but \<open>size\<close> may raise.
\<close>

record 'img codec =
  image_open :: "bytes \<Rightarrow> error + 'img"
  image_size :: "'img \<Rightarrow> int \<times> int"
  image_resize :: "'img \<Rightarrow> int \<times> int \<Rightarrow> error + 'img"
  image_save :: "'img \<Rightarrow> error + bytes"

text \<open>\<open>app.config['PROJECTS']\<close>: for each project the bounding box of each named size.\<close>

type_synonym projects = "string \<rightharpoonup> (string \<rightharpoonup> int \<times> int)"

text \<open>
  The calls made to the storage and to the codec are recorded, to state which of them a
  request makes.
\<close>

datatype event =
    StoreExists key
  | StoreGet key
  | StoreSave key bytes
  | CodecOpen
  | CodecResize "int \<times> int"
  | CodecSave

text \<open>
  The state of the service: the storage that \<open>_storage()\<close> returns (the configuration
  names one of the two, it is created on first use and kept) and the calls made so far.
\<close>

record state =
  storage :: store
  calls :: "event list"

type_synonym 'a action = "state \<Rightarrow> (error + 'a) \<times> state"

definition bind :: "'a action \<Rightarrow> ('a \<Rightarrow> 'b action) \<Rightarrow> 'b action" where
  "bind f g st = (case f st of (Inl e, st') \<Rightarrow> (Inl e, st') | (Inr v, st') \<Rightarrow> g v st')"

definition record_call :: "event \<Rightarrow> state \<Rightarrow> state" where
  "record_call ev st = st\<lparr>calls := calls st @ [ev]\<rparr>"

definition storage_exists :: "key \<Rightarrow> bool action" where
  "storage_exists k st = (Inr (store_exists (storage st) k), record_call (StoreExists k) st)"

definition storage_get :: "key \<Rightarrow> handle action" where
  "storage_get k st = (store_get (storage st) k, record_call (StoreGet k) st)"

definition storage_save :: "key \<Rightarrow> bytes \<Rightarrow> unit action" where
  "storage_save k data st =
     (Inr (), record_call (StoreSave k data) (st\<lparr>storage := store_save (storage st) k data\<rparr>))"

definition codec_call :: "event \<Rightarrow> error + 'a \<Rightarrow> 'a action" where
  "codec_call ev r st = (r, record_call ev st)"

definition pure_call :: "error + 'a \<Rightarrow> 'a action" where
  "pure_call r st = (r, st)"

text \<open>\<open>ImageStorage.save_image\<close>: encode the image as JPEG and \<open>save\<close> the bytes.\<close>

definition save_image :: "'img codec \<Rightarrow> key \<Rightarrow> 'img \<Rightarrow> unit action" where
  "save_image cd k pil_image =
     bind (codec_call CodecSave (image_save cd pil_image)) (\<lambda>data. storage_save k data)"

text \<open>\<open>app.config['PROJECTS'][project]['dimensions'][size]\<close>\<close>

definition dimensions_lookup :: "projects \<Rightarrow> string \<Rightarrow> string option \<Rightarrow> error + int \<times> int" where
  "dimensions_lookup ps project size' =
     (case ps project of
        None \<Rightarrow> Inl KeyError
      | Some dims \<Rightarrow>
          (case size' of
             None \<Rightarrow> Inl KeyError
           | Some s \<Rightarrow> (case dims s of None \<Rightarrow> Inl KeyError | Some box \<Rightarrow> Inr box)))"

definition resize_image ::
  "projects \<Rightarrow> 'img codec \<Rightarrow> string \<Rightarrow> string \<Rightarrow> string \<Rightarrow> string option \<Rightarrow> bytes action" where
  "resize_image ps cd project name extension size' =
     bind (storage_exists (project, name, extension, None)) (\<lambda>found.
       if \<not> found then pure_call (Inl NotFound)
       else
         bind (storage_get (project, name, extension, None)) (\<lambda>fd.
         bind (codec_call CodecOpen (image_open cd (buffer fd))) (\<lambda>im.
         bind (pure_call (dimensions_lookup ps project size')) (\<lambda>target_size.
         bind (pure_call (calc_size target_size (image_size cd im))) (\<lambda>new_size.
         bind (codec_call (CodecResize new_size) (image_resize cd im new_size)) (\<lambda>im'.
         bind (save_image cd (project, name, extension, size') im') (\<lambda>_.
         codec_call CodecSave (image_save cd im'))))))))"

text \<open>A Python string or \<open>None\<close> used as a condition: \<open>None\<close> and the empty string are false.\<close>

definition truthy :: "string option \<Rightarrow> bool" where
  "truthy size' \<longleftrightarrow> (case size' of None \<Rightarrow> False | Some s \<Rightarrow> s \<noteq> [])"

definition size_configured :: "(string \<rightharpoonup> int \<times> int) \<Rightarrow> string option \<Rightarrow> bool" where
  "size_configured dims size' \<longleftrightarrow> (case size' of None \<Rightarrow> False | Some s \<Rightarrow> dims s \<noteq> None)"

definition serve_image ::
  "projects \<Rightarrow> 'img codec \<Rightarrow> string \<Rightarrow> string \<Rightarrow> string option \<Rightarrow> string \<Rightarrow>
     (bytes \<times> string) action" where
  "serve_image ps cd project name size' extension =
     (case ps project of
        None \<Rightarrow> pure_call (Inl NotFound)
      | Some dims \<Rightarrow>
          if truthy size' \<and> \<not> size_configured dims size' then pure_call (Inl NotFound)
          else
            bind (storage_exists (project, name, extension, size')) (\<lambda>found.
              if \<not> found then
                bind (resize_image ps cd project name extension size') (\<lambda>resized_file.
                pure_call (Inr (resized_file, ''image/jpeg'')))
              else
                bind (storage_get (project, name, extension, size')) (\<lambda>fd.
                pure_call (Inr (buffer fd, ''image/jpeg'')))))"

text \<open>
  The two routes that call \<open>_serve_image\<close>: \<open>/img/<project>/<name>.<extension>\<close> passes
  \<open>None\<close> for the size, \<open>/img/<project>/<name>@<size>.<extension>\<close> passes the \<open><size>\<close>
  part of the URL.  A variable part of a route matches one character or more, so the size
  of a request is never the empty string.
\<close>

definition serve_original_image ::
  "projects \<Rightarrow> 'img codec \<Rightarrow> string \<Rightarrow> string \<Rightarrow> string \<Rightarrow> (bytes \<times> string) action" where
  "serve_original_image ps cd project name extension =
     serve_image ps cd project name None extension"

definition serve_resized_image ::
  "projects \<Rightarrow> 'img codec \<Rightarrow> string \<Rightarrow> string \<Rightarrow> string \<Rightarrow> string \<Rightarrow>
     (bytes \<times> string) action" where
  "serve_resized_image ps cd project name size' extension =
     serve_image ps cd project name (Some size') extension"

text \<open>
  The invariant of the storage under the service: where an image of some size is stored,
  its original is stored too.
\<close>

definition originals_present :: "store \<Rightarrow> bool" where
  "originals_present s \<longleftrightarrow>
     (\<forall>project name extension size'.
        artifacts s (project, name, extension, size') \<noteq> None \<longrightarrow>
        artifacts s (project, name, extension, None) \<noteq> None)"

section \<open>A concrete configuration\<close>

text \<open>
  The scenario of the specification: project \<open>demo\<close> with the size \<open>small\<close> of
  \<open>100 x 100\<close> and an original \<open>welcome.jpg\<close> of \<open>200 x 400\<close>; beside it an original
  \<open>line.jpg\<close> of \<open>1000 x 1\<close>.  The codec of the scenario identifies an image with its
  size.  Like \<open>resize\<close> of Pillow, it rejects a size with a dimension below 1 with
  \<open>ValueError\<close>.
\<close>

definition demo_projects :: projects where
  "demo_projects = [''demo'' \<mapsto> [''small'' \<mapsto> (100, 100)]]"

definition demo_codec :: "(int \<times> int) codec" where
  "demo_codec =
     \<lparr>image_open = (\<lambda>data.
        if data = ''original 200x400'' then Inr (200, 400)
        else if data = ''original 1000x1'' then Inr (1000, 1)
        else Inl IOError),
      image_size = (\<lambda>im. im),
      image_resize = (\<lambda>im new_size.
        if fst new_size < 1 \<or> snd new_size < 1 then Inl ValueError else Inr new_size),
      image_save = (\<lambda>im. if im = (50, 100) then Inr ''jpeg 50x100'' else Inr ''jpeg'')\<rparr>"

definition demo_state :: state where
  "demo_state =
     \<lparr>storage = \<lparr>kind = LocalFile,
        artifacts = [(''demo'', ''welcome'', ''jpg'', None) \<mapsto> ''original 200x400'']\<rparr>,
      calls = []\<rparr>"

definition empty_state :: state where
  "empty_state = \<lparr>storage = \<lparr>kind = LocalFile, artifacts = Map.empty\<rparr>, calls = []\<rparr>"


definition line_state :: state where
  "line_state =
     \<lparr>storage = \<lparr>kind = LocalFile,
        artifacts = [(''demo'', ''line'', ''jpg'', None) \<mapsto> ''original 1000x1'']\<rparr>,
      calls = []\<rparr>"

text \<open>The state after the request for the size \<open>small\<close> of \<open>line.jpg\<close> has failed.\<close>

definition line_state_failed :: state where
  "line_state_failed =
     \<lparr>storage = \<lparr>kind = LocalFile,
        artifacts = [(''demo'', ''line'', ''jpg'', None) \<mapsto> ''original 1000x1'']\<rparr>,
      calls =
        [StoreExists (''demo'', ''line'', ''jpg'', Some ''small''),
         StoreExists (''demo'', ''line'', ''jpg'', None),
         StoreGet (''demo'', ''line'', ''jpg'', None),
         CodecOpen,
         CodecResize (100, 0)]\<rparr>"

section \<open>Rounding to the nearest float\<close>

lemma bit_length_bounds:
  "0 < n \<Longrightarrow> 0 < bit_length n \<and> 2 ^ nat (bit_length n - 1) \<le> n \<and> n < 2 ^ nat (bit_length n)"
proof (induction n rule: bit_length.induct)
  case (1 n)
  show ?case
  proof (cases "n = 1")
    case True
    have "bit_length 1 = 1"
      by (simp add: bit_length.simps [of 1] bit_length.simps [of 0])
    with True show ?thesis by simp
  next
    case False
    with "1.prems" have pos: "0 < n div 2" by simp
    from "1.prems" have "\<not> n \<le> 0" by simp
    from "1.IH" [OF this pos] have ih: "0 < bit_length (n div 2)"
      "2 ^ nat (bit_length (n div 2) - 1) \<le> n div 2" "n div 2 < 2 ^ nat (bit_length (n div 2))"
      by auto
    define b where "b = bit_length (n div 2)"
    have bl: "bit_length n = 1 + b"
      using "1.prems" by (simp add: bit_length.simps [of n] b_def)
    have nb: "nat (1 + b) = Suc (nat b)" "nat b = Suc (nat (b - 1))"
      using ih(1) by (simp_all add: b_def)
    have lo: "(2::int) ^ nat b \<le> n"
    proof -
      have "(2::int) ^ nat b = 2 * 2 ^ nat (b - 1)"
        using nb(2) by simp
      also have "\<dots> \<le> 2 * (n div 2)"
        using ih(2) by (simp add: b_def)
      also have "\<dots> \<le> n" by simp
      finally show ?thesis .
    qed
    have hi: "n < 2 ^ nat (1 + b)"
    proof -
      have "n div 2 + 1 \<le> 2 ^ nat b"
        using ih(3) by (simp add: b_def)
      then have "2 * (n div 2) + 2 \<le> 2 * 2 ^ nat b" by simp
      moreover have "n < 2 * (n div 2) + 2" by presburger
      ultimately show ?thesis using nb(1) by simp
    qed
    from lo hi ih(1) show ?thesis
      unfolding bl by (simp add: b_def)
  qed
qed

lemma bit_length_powi:
  assumes "0 < n"
  shows "(2::rat) powi (bit_length n - 1) \<le> of_int n" and "of_int n < (2::rat) powi (bit_length n)"
proof -
  from bit_length_bounds [OF assms]
  have b: "0 < bit_length n" "2 ^ nat (bit_length n - 1) \<le> n" "n < 2 ^ nat (bit_length n)"
    by auto
  have "(2::rat) powi (bit_length n - 1) = of_int (2 ^ nat (bit_length n - 1))"
    using b(1) by (simp add: power_int_def)
  also have "\<dots> \<le> of_int n"
    using b(2) by (simp only: of_int_le_iff)
  finally show "(2::rat) powi (bit_length n - 1) \<le> of_int n" .
  have "(of_int n :: rat) < of_int (2 ^ nat (bit_length n))"
    using b(3) by (simp only: of_int_less_iff)
  also have "\<dots> = 2 powi (bit_length n)"
    using b(1) by (simp add: power_int_def)
  finally show "of_int n < (2::rat) powi (bit_length n)" .
qed

lemma ilog2_bounds:
  assumes "0 < x"
  shows "2 powi (ilog2 x) \<le> x" and "x < 2 powi (ilog2 x + 1)"
proof -
  obtain p q where pq: "quotient_of x = (p, q)" by force
  have q: "0 < q" using quotient_of_denom_pos [OF pq] .
  have x: "x = of_int p / of_int q" using quotient_of_div [OF pq] .
  have p: "0 < p"
  proof (rule ccontr)
    assume "\<not> 0 < p"
    then have "(of_int p :: rat) \<le> 0" by simp
    then have "x \<le> 0" using q unfolding x by (simp add: divide_le_0_iff)
    with assms show False by simp
  qed
  define e where "e = bit_length p - bit_length q"
  have qr: "(0::rat) < of_int q" using q by simp
  have up: "x < 2 powi (e + 1)"
  proof -
    have "x * of_int q = of_int p" using qr unfolding x by simp
    also have "\<dots> < 2 powi (bit_length p)" using bit_length_powi(2) [OF p] .
    also have "\<dots> = 2 powi (e + 1) * 2 powi (bit_length q - 1)"
      by (simp add: e_def flip: power_int_add)
    also have "\<dots> \<le> 2 powi (e + 1) * of_int q"
      using bit_length_powi(1) [OF q] by (intro mult_left_mono) auto
    finally show ?thesis using qr by simp
  qed
  have lo: "2 powi (e - 1) < x"
  proof -
    have "(2::rat) powi (e - 1) * of_int q < 2 powi (e - 1) * 2 powi (bit_length q)"
      using bit_length_powi(2) [OF q] by (intro mult_strict_left_mono) auto
    also have "\<dots> = 2 powi (bit_length p - 1)"
      by (simp add: e_def flip: power_int_add)
    also have "\<dots> \<le> of_int p" using bit_length_powi(1) [OF p] .
    also have "\<dots> = x * of_int q" using qr unfolding x by simp
    finally show ?thesis using qr by simp
  qed
  have il: "ilog2 x = (if 2 powi e \<le> x then e else e - 1)"
    by (simp add: ilog2_def pq ilog2_adjust_def e_def)
  show "2 powi (ilog2 x) \<le> x"
    using lo by (simp add: il)
  show "x < 2 powi (ilog2 x + 1)"
    using up by (simp add: il not_le)
qed

lemma ilog2_unique:
  assumes "0 < x" "2 powi e \<le> x" "x < 2 powi (e + 1)"
  shows "ilog2 x = e"
proof -
  note b = ilog2_bounds [OF assms(1)]
  have lt1: "(2::rat) powi e < 2 powi (ilog2 x + 1)"
    using assms(2) b(2) by simp
  have "e < ilog2 x + 1"
  proof (rule ccontr)
    assume "\<not> e < ilog2 x + 1"
    then have "ilog2 x + 1 \<le> e" by simp
    then have "(2::rat) powi (ilog2 x + 1) \<le> 2 powi e"
      by (rule power_int_increasing) simp
    with lt1 show False by simp
  qed
  moreover have lt2: "(2::rat) powi (ilog2 x) < 2 powi (e + 1)"
    using assms(3) b(1) by simp
  have "ilog2 x < e + 1"
  proof (rule ccontr)
    assume "\<not> ilog2 x < e + 1"
    then have "e + 1 \<le> ilog2 x" by simp
    then have "(2::rat) powi (e + 1) \<le> 2 powi (ilog2 x)"
      by (rule power_int_increasing) simp
    with lt2 show False by simp
  qed
  ultimately show ?thesis by simp
qed

lemma ilog2_less:
  assumes "0 < x" "x < 2 powi k"
  shows "ilog2 x < k"
proof (rule ccontr)
  assume "\<not> ilog2 x < k"
  then have "k \<le> ilog2 x" by simp
  then have "(2::rat) powi k \<le> 2 powi (ilog2 x)"
    by (rule power_int_increasing) simp
  with ilog2_bounds(1) [OF assms(1)] assms(2) show False by simp
qed

lemma ilog2_ge:
  assumes "0 < x" "2 powi k \<le> x"
  shows "k \<le> ilog2 x"
proof (rule ccontr)
  assume "\<not> k \<le> ilog2 x"
  then have "ilog2 x + 1 \<le> k" by simp
  then have "(2::rat) powi (ilog2 x + 1) \<le> 2 powi k"
    by (rule power_int_increasing) simp
  with ilog2_bounds(2) [OF assms(1)] assms(2) show False by simp
qed

lemma round_half_even_error: "\<bar>of_int (round_half_even x) - x\<bar> \<le> 1 / 2"
proof -
  have "of_int \<lfloor>x\<rfloor> \<le> x" "x < of_int \<lfloor>x\<rfloor> + 1"
    by linarith+
  then show ?thesis
    unfolding round_half_even_def nearest_even_def by (auto simp: abs_le_iff) 
qed

lemma round_half_even_of_int: "round_half_even (of_int n) = n"
  by (simp add: round_half_even_def nearest_even_def)

lemma quantize_error:
  assumes "0 < q"
  shows "\<bar>quantize q x - x\<bar> \<le> q / 2"
proof -
  have "quantize q x - x = (of_int (round_half_even (x / q)) - x / q) * q"
    using assms by (simp add: quantize_def algebra_simps)
  then have "\<bar>quantize q x - x\<bar> = \<bar>of_int (round_half_even (x / q)) - x / q\<bar> * q"
    using assms by (simp add: abs_mult)
  also have "\<dots> \<le> (1 / 2) * q"
    using round_half_even_error [of "x / q"] assms by (intro mult_right_mono) auto
  finally show ?thesis by simp
qed

lemma quantize_exact:
  assumes "q \<noteq> 0" "x / q = of_int m"
  shows "quantize q x = x"
proof -
  have "quantize q x = of_int m * q"
    by (simp add: quantize_def assms(2) round_half_even_of_int)
  also have "\<dots> = x" using assms by (simp add: field_simps)
  finally show ?thesis .
qed

lemma round_double_error:
  assumes "2 powi (- 1022) \<le> \<bar>x\<bar>"
  shows "\<bar>round_double x - x\<bar> \<le> \<bar>x\<bar> / 2 ^ 53"
proof -
  have "(0::rat) < 2 powi (- 1022)" by simp
  with assms have pos: "0 < \<bar>x\<bar>" by linarith
  then have nz: "x \<noteq> 0" by simp
  define e where "e = ilog2 \<bar>x\<bar>"
  have e: "- 1022 \<le> e" unfolding e_def using ilog2_ge [OF pos assms] .
  have lo: "2 powi e \<le> \<bar>x\<bar>" unfolding e_def using ilog2_bounds(1) [OF pos] .
  have rd: "round_double x = quantize (2 powi (e - 52)) x"
    using nz e by (simp add: round_double_def e_def max_def)
  have "\<bar>round_double x - x\<bar> \<le> 2 powi (e - 52) / 2"
    unfolding rd by (rule quantize_error) simp
  also have "\<dots> = 2 powi e / 2 ^ 53"
    by (simp add: power_int_diff)
  also have "\<dots> \<le> \<bar>x\<bar> / 2 ^ 53"
    using lo by (simp add: divide_right_mono)
  finally show ?thesis .
qed

lemma round_double_of_int:
  assumes "\<bar>n\<bar> < 2 ^ 53"
  shows "round_double (of_int n) = of_int n"
proof (cases "n = 0")
  case True
  then show ?thesis by (simp add: round_double_def)
next
  case False
  define x :: rat where "x = of_int n"
  have ax: "\<bar>x\<bar> = of_int \<bar>n\<bar>" by (simp add: x_def)
  have "1 \<le> \<bar>n\<bar>" using False by simp
  then have one: "1 \<le> \<bar>x\<bar>" unfolding ax by (simp only: of_int_1_le_iff)
  then have pos: "0 < \<bar>x\<bar>" by linarith
  have "\<bar>x\<bar> < of_int (2 ^ 53)" unfolding ax using assms by (simp only: of_int_less_iff)
  then have hi: "\<bar>x\<bar> < 2 powi 53" by simp
  define e where "e = ilog2 \<bar>x\<bar>"
  have e0: "0 \<le> e" unfolding e_def using ilog2_ge [OF pos, of 0] one by simp
  have e53: "e < 53" unfolding e_def using ilog2_less [OF pos hi] .
  have nz: "x \<noteq> 0" using pos by simp
  have rd: "round_double x = quantize (2 powi (e - 52)) x"
    using nz e0 by (simp add: round_double_def e_def max_def)
  have q: "(2::rat) powi (e - 52) = 1 / 2 ^ nat (52 - e)"
    using e53 by (simp add: power_int_def field_simps)
  have "x / 2 powi (e - 52) = of_int (n * 2 ^ nat (52 - e))"
    unfolding q by (simp add: x_def)
  then have "quantize (2 powi (e - 52)) x = x"
    by (rule quantize_exact [rotated]) simp
  with rd show ?thesis by (simp add: x_def)
qed

lemma overflow_check_finite:
  assumes "\<bar>r\<bar> < 2 ^ 1024"
  shows "overflow_check r = Finite r"
proof (cases "r = 0")
  case True
  then show ?thesis by (simp add: overflow_check_def)
next
  case False
  then have pos: "0 < \<bar>r\<bar>" by simp
  have "\<bar>r\<bar> < 2 powi 1024" using assms by simp
  from ilog2_less [OF pos this] show ?thesis
    by (simp add: overflow_check_def)
qed

lemma to_double_finite:
  assumes "\<bar>round_double x\<bar> < 2 ^ 1024"
  shows "to_double x = Finite (round_double x)"
  using overflow_check_finite [OF assms] by (simp add: to_double_def)

lemma py_float_small:
  assumes "\<bar>n\<bar> < 2 ^ 53"
  shows "py_float n = Inr (Finite (of_int n))"
proof -
  have "\<bar>of_int n :: rat\<bar> = of_int \<bar>n\<bar>" by simp
  also have "\<dots> < of_int (2 ^ 53)" using assms by (simp only: of_int_less_iff)
  also have "\<dots> \<le> 2 ^ 1024" by simp
  finally have "\<bar>of_int n :: rat\<bar> < 2 ^ 1024" .
  then have "to_double (of_int n) = Finite (of_int n)"
    using to_double_finite [of "of_int n"] round_double_of_int [OF assms] by simp
  then show ?thesis by (simp add: py_float_def)
qed

lemma round_double_bound:
  assumes "2 powi (- 1022) \<le> x" "x \<le> 2 ^ 60"
  shows "0 < round_double x" and "round_double x < 2 ^ 1024"
proof -
  have "(0::rat) < 2 powi (- 1022)" by simp
  with assms have pos: "0 < x" by linarith
  have "\<bar>round_double x - x\<bar> \<le> \<bar>x\<bar> / 2 ^ 53"
    by (rule round_double_error) (use assms pos in simp)
  then have err: "\<bar>round_double x - x\<bar> \<le> x / 2 ^ 53" using pos by simp
  have "x / 2 ^ 53 < x" using pos by simp
  with err show "0 < round_double x" by linarith
  have "round_double x \<le> x + x / 2 ^ 53" using err by linarith
  also have "\<dots> < x + x" using \<open>x / 2 ^ 53 < x\<close> by simp
  also have "\<dots> \<le> 2 ^ 60 + 2 ^ 60" using assms(2) by simp
  also have "\<dots> < (2::rat) ^ 1024" by simp
  finally show "round_double x < 2 ^ 1024" .
qed

section \<open>Scaling a dimension\<close>

lemma trunc_zero_nonneg: "0 \<le> r \<Longrightarrow> trunc_zero r = \<lfloor>r\<rfloor>"
  by (simp add: trunc_zero_def)

lemma scaled_near_floor:
  fixes d c m :: int and s t :: rat
  assumes d: "0 < d"
    and t: "1 / 2 ^ 25 \<le> t"
    and st: "\<bar>s - t\<bar> \<le> t / 2 ^ 53"
    and y25: "of_int d * t \<le> 2 ^ 25"
    and c: "0 < c" "c \<le> 2 ^ 25"
    and m: "of_int d * t * of_int c = of_int m"
  shows "0 < round_double (of_int d * s)"
    and "round_double (of_int d * s) < 2 ^ 1024"
    and "near_floor (of_int d * t) (trunc_zero (round_double (of_int d * s)))"
proof -
  define dr :: rat where "dr = of_int d"
  define y where "y = dr * t"
  define x where "x = dr * s"
  define P where "P = round_double x"
  define u :: rat where "u = 1 / 2 ^ 53"
  have u: "0 < u" "u \<le> 1 / 2" by (simp_all add: u_def)
  have tpos: "0 < t" using t by (rule less_le_trans [rotated]) simp
  have dr1: "1 \<le> dr" using d by (simp add: dr_def)
  have st': "\<bar>s - t\<bar> \<le> t * u" using st by (simp add: u_def)
  have tu: "t * u \<le> t / 2" using tpos by (simp add: u_def)
  have s_lo: "t / 2 \<le> s" using st' tu by linarith
  have s_hi: "s \<le> t + t * u" using st' by linarith
  have ypos: "0 < y" using tpos dr1 by (simp add: y_def)
  have y_le: "y \<le> 2 ^ 25" using y25 by (simp add: y_def dr_def)
  have xy: "\<bar>x - y\<bar> \<le> y * u"
  proof -
    have "\<bar>x - y\<bar> = dr * \<bar>s - t\<bar>"
      using dr1 by (simp add: x_def y_def abs_mult flip: right_diff_distrib)
    also have "\<dots> \<le> dr * (t * u)"
      using st' dr1 by (intro mult_left_mono) auto
    finally show ?thesis by (simp add: y_def mult.assoc)
  qed
  have yu: "y * u \<le> y / 2" using ypos by (simp add: u_def)
  have x_lo: "1 / 2 ^ 26 \<le> x"
  proof -
    have "1 / 2 ^ 26 \<le> t / 2" using t by simp
    also have "\<dots> \<le> s" by (rule s_lo)
    also have "\<dots> = 1 * s" by simp
    also have "\<dots> \<le> dr * s" using dr1 s_lo tpos by (intro mult_right_mono) auto
    finally show ?thesis by (simp add: x_def)
  qed
  have x_hi: "x \<le> y + y * u" using xy by linarith
  have x60: "x \<le> 2 ^ 60"
  proof -
    have "x \<le> y + y" using x_hi yu ypos by linarith
    also have "\<dots> \<le> 2 ^ 25 + 2 ^ 25" using y_le by simp
    also have "\<dots> \<le> (2::rat) ^ 60" by simp
    finally show ?thesis .
  qed
  have xmin: "2 powi (- 1022) \<le> x"
  proof -
    have "(2::rat) powi (- 1022) \<le> 2 powi (- 26)"
      by (rule power_int_increasing) simp_all
    also have "\<dots> = 1 / 2 ^ 26" by (simp add: power_int_minus_divide)
    finally show ?thesis using x_lo by simp
  qed
  have xpos: "0 < x" using x_lo by (rule less_le_trans [rotated]) simp
  from round_double_bound [OF xmin x60]
  have Ppos: "0 < P" and Pfin: "P < 2 ^ 1024" by (simp_all add: P_def)
  show "0 < round_double (of_int d * s)" using Ppos by (simp add: P_def x_def dr_def)
  show "round_double (of_int d * s) < 2 ^ 1024" using Pfin by (simp add: P_def x_def dr_def)
  have "\<bar>P - x\<bar> \<le> \<bar>x\<bar> / 2 ^ 53"
    unfolding P_def by (rule round_double_error) (use xmin xpos in simp)
  then have Px: "\<bar>P - x\<bar> \<le> x * u" using xpos by (simp add: u_def)
  have xu: "x * u \<le> 2 * (y * u)"
  proof -
    have "x \<le> y + y" using x_hi yu ypos by linarith
    then have "x * u \<le> (y + y) * u"
      using u(1) by (intro mult_right_mono) auto
    then show ?thesis by (simp add: algebra_simps)
  qed
  have "y * u \<le> 2 ^ 25 * u" using y_le u(1) by (intro mult_right_mono) auto
  also have "\<dots> = 1 / 2 ^ 28" by (simp add: u_def)
  finally have yu28: "y * u \<le> 1 / 2 ^ 28" .
  have Py: "\<bar>P - y\<bar> \<le> 3 / 2 ^ 28" using Px xu xy yu28 by linarith
  define eps :: rat where "eps = 1 / 2 ^ 25"
  have eps: "0 < eps" "eps < 1" "3 / 2 ^ 28 < eps" by (simp_all add: eps_def)
  have P_lo: "y - eps < P" and P_hi: "P < y + eps" using Py eps(3) by linarith+
  have tr: "trunc_zero P = \<lfloor>P\<rfloor>" using Ppos by (simp add: trunc_zero_nonneg)
  define k where "k = \<lfloor>y\<rfloor>"
  have k: "of_int k \<le> y" "y < of_int k + 1" unfolding k_def by linarith+
  have "near_floor y (trunc_zero P)"
  proof (cases "y = of_int k")
    case True
    have lo: "of_int (k - 1) \<le> P" using P_lo True eps(2) by simp
    have hi: "P < of_int k + 1" using P_hi True eps(2) by simp
    show ?thesis
    proof (cases "P < of_int k")
      case True
      with lo have "\<lfloor>P\<rfloor> = k - 1" by (simp add: floor_eq_iff)
      with \<open>y = of_int k\<close> show ?thesis by (simp add: near_floor_def tr k_def)
    next
      case False
      with hi have "\<lfloor>P\<rfloor> = k" by (simp add: floor_eq_iff)
      then show ?thesis by (simp add: near_floor_def tr k_def)
    qed
  next
    case False
    have cr: "(0::rat) < of_int c" using c(1) by simp
    have yc: "y * of_int c = of_int m" using m by (simp add: y_def dr_def)
    have "of_int k * of_int c < y * (of_int c :: rat)"
      using False k(1) cr by (intro mult_strict_right_mono) auto
    then have "(of_int (k * c) :: rat) < of_int m" by (simp add: yc)
    then have "k * c < m" by (simp only: of_int_less_iff)
    then have m_lo: "k * c + 1 \<le> m" by simp
    have "y * of_int c < (of_int k + 1) * (of_int c :: rat)"
      using k(2) cr by (intro mult_strict_right_mono) auto
    then have "(of_int m :: rat) < of_int ((k + 1) * c)" by (simp add: yc)
    then have "m < (k + 1) * c" by (simp only: of_int_less_iff)
    then have m_hi: "m + 1 \<le> (k + 1) * c" by simp
    have c25: "(of_int c :: rat) \<le> 2 ^ 25"
    proof -
      have "(of_int c :: rat) \<le> of_int (2 ^ 25)" using c(2) by (simp only: of_int_le_iff)
      then show ?thesis by simp
    qed
    have inv: "1 / 2 ^ 25 \<le> 1 / (of_int c :: rat)"
      using cr c25 by (simp add: field_simps)
    have "of_int (k * c + 1) \<le> (of_int m :: rat)" using m_lo by (simp only: of_int_le_iff)
    then have "of_int k * of_int c + 1 \<le> y * (of_int c :: rat)" by (simp add: yc)
    then have "of_int k + 1 / of_int c \<le> y" using cr by (simp add: field_simps)
    then have y_lo: "of_int k + eps \<le> y" using inv unfolding eps_def by linarith
    have "(of_int (m + 1) :: rat) \<le> of_int ((k + 1) * c)" using m_hi by (simp only: of_int_le_iff)
    then have "y * (of_int c :: rat) + 1 \<le> (of_int k + 1) * of_int c" by (simp add: yc)
    then have "y + 1 / of_int c \<le> of_int k + 1" using cr by (simp add: field_simps)
    then have y_hi: "y + eps \<le> of_int k + 1" using inv unfolding eps_def by linarith
    have "of_int k \<le> P" using P_lo y_lo by linarith
    moreover have "P < of_int k + 1" using P_hi y_hi by linarith
    ultimately have "\<lfloor>P\<rfloor> = k" by (simp add: floor_eq_iff)
    then show ?thesis by (simp add: near_floor_def tr k_def)
  qed
  then show "near_floor (of_int d * t) (trunc_zero (round_double (of_int d * s)))"
    by (simp add: y_def P_def x_def dr_def)
qed

lemma of_int_le_2_25:
  assumes "n \<le> 2 ^ 25"
  shows "(of_int n :: rat) \<le> 2 ^ 25"
proof -
  have "(of_int n :: rat) \<le> of_int (2 ^ 25)" using assms by (simp only: of_int_le_iff)
  then show ?thesis by simp
qed

lemma ratio_bounds:
  fixes m d :: int
  assumes "0 < m" "m \<le> 2 ^ 25" "0 < d" "d \<le> 2 ^ 25"
  shows "1 / 2 ^ 25 \<le> (of_int m / of_int d :: rat)" and "(of_int m / of_int d :: rat) \<le> 2 ^ 25"
proof -
  have mr: "(1::rat) \<le> of_int m" "(of_int m :: rat) \<le> 2 ^ 25"
    using assms(1) of_int_le_2_25 [OF assms(2)] by simp_all
  have dr: "(1::rat) \<le> of_int d" "(of_int d :: rat) \<le> 2 ^ 25"
    using assms(3) of_int_le_2_25 [OF assms(4)] by simp_all
  have "(of_int d :: rat) \<le> 2 ^ 25 * of_int m"
    using mr(1) dr(2) by (rule_tac order_trans [where y = "2 ^ 25 * 1"]) (simp, intro mult_left_mono, auto)
  then show "1 / 2 ^ 25 \<le> (of_int m / of_int d :: rat)"
    using dr(1) by (simp add: field_simps)
  have "(of_int m :: rat) \<le> 2 ^ 25 * of_int d"
    using mr(2) dr(1) by (rule_tac order_trans [where y = "2 ^ 25 * 1"]) (simp, intro mult_left_mono, auto)
  then show "(of_int m / of_int d :: rat) \<le> 2 ^ 25"
    using dr(1) by (simp add: field_simps)
qed

lemma small_lt_2_53: "0 < n \<Longrightarrow> n \<le> 2 ^ 25 \<Longrightarrow> \<bar>n::int\<bar> < 2 ^ 53"
  by simp

lemma tiny_le: "(2::rat) powi (- 1022) \<le> 1 / 2 ^ 25"
proof -
  have "(2::rat) powi (- 1022) \<le> 2 powi (- 25)"
    by (rule power_int_increasing) simp_all
  also have "\<dots> = 1 / 2 ^ 25" by (simp add: power_int_minus_divide)
  finally show ?thesis .
qed

lemma int_over_float_small:
  fixes m d :: int
  assumes "0 < m" "m \<le> 2 ^ 25" "0 < d" "d \<le> 2 ^ 25"
  shows "int_over_float m d = Inr (Finite (round_double (of_int m / of_int d)))"
    and "\<bar>round_double (of_int m / of_int d) - of_int m / of_int d\<bar>
           \<le> (of_int m / of_int d) / 2 ^ 53"
proof -
  define x :: rat where "x = of_int m / of_int d"
  note b = ratio_bounds [OF assms, folded x_def]
  have xmin: "2 powi (- 1022) \<le> x" using tiny_le b(1) by linarith
  have x60: "x \<le> 2 ^ 60" using b(2) by (rule order_trans) simp
  have xpos: "0 < x" using b(1) by (rule less_le_trans [rotated]) simp
  from round_double_bound [OF xmin x60]
  have "\<bar>round_double x\<bar> < 2 ^ 1024" by simp
  then have td: "to_double x = Finite (round_double x)" by (rule to_double_finite)
  have "int_over_float m d = float_div (Finite (of_int m)) (Finite (of_int d))"
    using py_float_small [OF small_lt_2_53 [OF assms(1,2)]]
      py_float_small [OF small_lt_2_53 [OF assms(3,4)]]
    by (simp add: int_over_float_def and_then_def)
  also have "\<dots> = Inr (Finite (round_double x))"
    using assms(3) td by (simp add: x_def)
  finally show "int_over_float m d = Inr (Finite (round_double (of_int m / of_int d)))"
    by (simp add: x_def)
  have "\<bar>round_double x - x\<bar> \<le> \<bar>x\<bar> / 2 ^ 53"
    by (rule round_double_error) (use xmin xpos in simp)
  then show "\<bar>round_double (of_int m / of_int d) - of_int m / of_int d\<bar>
           \<le> (of_int m / of_int d) / 2 ^ 53"
    using xpos by (simp add: x_def)
qed

lemma min_error:
  fixes a b a' b' u :: rat
  assumes "0 \<le> u" "0 \<le> a" "0 \<le> b" "\<bar>a' - a\<bar> \<le> a * u" "\<bar>b' - b\<bar> \<le> b * u"
    and u1: "u \<le> 1"
  shows "\<bar>min a' b' - min a b\<bar> \<le> min a b * u"
proof (cases "a \<le> b")
  case True
  then have au: "a * u \<le> b * u" using assms(1) by (intro mult_right_mono)
  have "(b - a) * u \<le> (b - a) * 1" using True u1 by (intro mult_left_mono) auto
  then have gap: "b * u - a * u \<le> b - a" by (simp add: algebra_simps)
  have "\<bar>min a' b' - a\<bar> \<le> a * u"
  proof (cases "a' \<le> b'")
    case True
    then show ?thesis using assms(4) by (simp add: min_def)
  next
    case False
    then have "\<bar>b' - a\<bar> \<le> a * u" using assms(4,5) au gap \<open>a \<le> b\<close> by linarith
    with False show ?thesis by (simp add: min_def)
  qed
  with True show ?thesis by (simp add: min_def)
next
  case False
  then have bu: "b * u \<le> a * u" using assms(1) by (intro mult_right_mono) auto
  have "(a - b) * u \<le> (a - b) * 1" using False u1 by (intro mult_left_mono) auto
  then have gap: "a * u - b * u \<le> a - b" by (simp add: algebra_simps)
  have "\<bar>min a' b' - b\<bar> \<le> b * u"
  proof (cases "a' \<le> b'")
    case True
    then have "\<bar>a' - b\<bar> \<le> b * u" using assms(4,5) bu gap \<open>\<not> a \<le> b\<close> by linarith
    with True show ?thesis by (simp add: min_def)
  next
    case False
    then show ?thesis using assms(5) by (simp add: min_def)
  qed
  with False show ?thesis by (simp add: min_def)
qed

lemma int_scaled_small:
  assumes "0 < d" "d \<le> 2 ^ 25" "0 < round_double (of_int d * s)"
    "round_double (of_int d * s) < 2 ^ 1024"
  shows "int_scaled d (Finite s) = Inr (trunc_zero (round_double (of_int d * s)))"
proof -
  have "\<bar>round_double (of_int d * s)\<bar> < 2 ^ 1024" using assms(3,4) by simp
  then have "to_double (of_int d * s) = Finite (round_double (of_int d * s))"
    by (rule to_double_finite)
  then show ?thesis
    using py_float_small [OF small_lt_2_53 [OF assms(1,2)]]
    by (simp add: int_scaled_def and_then_def)
qed

lemma calc_size_downscale:
  fixes maxW maxH w h :: int
  assumes w: "0 < w" "w \<le> 2 ^ 25" and h: "0 < h" "h \<le> 2 ^ 25"
    and mw: "0 < maxW" "maxW \<le> 2 ^ 25" and mh: "0 < maxH" "maxH \<le> 2 ^ 25"
    and nc: "\<not> (maxW \<ge> w \<and> maxH \<ge> h)"
  shows "\<exists>out_w out_h. calc_size (maxW, maxH) (w, h) = Inr (out_w, out_h) \<and>
      near_floor (of_int w * min (of_int maxW / of_int w) (of_int maxH / of_int h)) out_w \<and>
      near_floor (of_int h * min (of_int maxW / of_int w) (of_int maxH / of_int h)) out_h"
proof -
  define a :: rat where "a = of_int maxW / of_int w"
  define b :: rat where "b = of_int maxH / of_int h"
  define t where "t = min a b"
  define s where "s = min (round_double a) (round_double b)"
  note ra = int_over_float_small [OF mw w, folded a_def]
  note rb = int_over_float_small [OF mh h, folded b_def]
  note ba = ratio_bounds [OF mw w, folded a_def]
  note bb = ratio_bounds [OF mh h, folded b_def]
  have wr: "(0::rat) < of_int w" and hr: "(0::rat) < of_int h" using w(1) h(1) by simp_all
  have t25: "1 / 2 ^ 25 \<le> t" using ba(1) bb(1) by (simp add: t_def)
  have a0: "0 \<le> a" using ba(1) by (rule order_trans [rotated]) simp
  have b0: "0 \<le> b" using bb(1) by (rule order_trans [rotated]) simp
  have "\<bar>s - t\<bar> \<le> t * (1 / 2 ^ 53)"
    unfolding s_def t_def using ra(2) rb(2) a0 b0 by (intro min_error) simp_all
  then have st: "\<bar>s - t\<bar> \<le> t / 2 ^ 53" by simp
  have pm: "py_min (Finite (round_double a)) (Finite (round_double b)) = Finite s"
    by (simp add: py_min_def s_def min_def)
  define m where "m = min (maxW * h) (maxH * w)"
  have ta: "of_int w * a = of_int maxW" and tb: "of_int h * b = of_int maxH"
    using wr hr by (simp_all add: a_def b_def)
  have ab: "a \<le> b \<longleftrightarrow> maxW * h \<le> maxH * w"
  proof -
    have "a \<le> b \<longleftrightarrow> (of_int maxW * of_int h :: rat) \<le> of_int maxH * of_int w"
      using wr hr by (simp add: a_def b_def field_simps)
    also have "\<dots> \<longleftrightarrow> (of_int (maxW * h) :: rat) \<le> of_int (maxH * w)" by simp
    also have "\<dots> \<longleftrightarrow> maxW * h \<le> maxH * w" by (simp only: of_int_le_iff)
    finally show ?thesis .
  qed
  have twh: "of_int w * t * of_int h = of_int m"
  proof (cases "a \<le> b")
    case True
    then have "of_int w * t * of_int h = (of_int w * a) * of_int h" by (simp add: t_def min_def)
    also have "\<dots> = of_int (maxW * h)" by (simp add: ta)
    finally show ?thesis using True ab by (simp add: m_def min_def)
  next
    case False
    then have "of_int w * t * of_int h = of_int w * (of_int h * b)"
      by (simp add: t_def min_def)
    also have "\<dots> = of_int (maxH * w)" by (simp add: tb)
    finally show ?thesis using False ab by (simp add: m_def min_def)
  qed
  then have thw: "of_int h * t * of_int w = of_int m" by (simp add: mult_ac)
  have yw: "of_int w * t \<le> 2 ^ 25"
  proof -
    have "of_int w * t \<le> of_int w * a" using wr by (intro mult_left_mono) (simp_all add: t_def)
    then show ?thesis using of_int_le_2_25 [OF mw(2)] by (simp add: ta)
  qed
  have yh: "of_int h * t \<le> 2 ^ 25"
  proof -
    have "of_int h * t \<le> of_int h * b" using hr by (intro mult_left_mono) (simp_all add: t_def)
    then show ?thesis using of_int_le_2_25 [OF mh(2)] by (simp add: tb)
  qed
  note nw = scaled_near_floor [OF w(1) t25 st yw h twh]
  note nh = scaled_near_floor [OF h(1) t25 st yh w thw]
  have "calc_size (maxW, maxH) (w, h) =
      and_then (int_over_float maxW w) (\<lambda>a.
      and_then (int_over_float maxH h) (\<lambda>b.
      let scale = py_min a b in
      and_then (int_scaled w scale) (\<lambda>out_width.
      and_then (int_scaled h scale) (\<lambda>out_height.
        Inr (out_width, out_height)))))"
    by (simp only: calc_size_def prod.case if_not_P [OF nc])
  also have "\<dots> =
      Inr (trunc_zero (round_double (of_int w * s)), trunc_zero (round_double (of_int h * s)))"
    using ra(1) rb(1) pm int_scaled_small [OF w nw(1,2)] int_scaled_small [OF h nh(1,2)]
    by (simp add: and_then_def)
  finally have "calc_size (maxW, maxH) (w, h) =
      Inr (trunc_zero (round_double (of_int w * s)), trunc_zero (round_double (of_int h * s)))" .
  with nw(3) nh(3) show ?thesis
    by (simp add: t_def a_def b_def)
qed

lemma near_floor_bounds:
  assumes "near_floor y out"
  shows "of_int out \<le> y" and "y \<le> of_int out + 1"
proof -
  have "of_int \<lfloor>y\<rfloor> \<le> y" "y < of_int \<lfloor>y\<rfloor> + 1" by linarith+
  with assms show "of_int out \<le> y" and "y \<le> of_int out + 1"
    by (auto simp: near_floor_def)
qed

lemma near_floor_of_int:
  assumes "near_floor (of_int n) out"
  shows "out = n \<or> out = n - 1"
  using assms by (auto simp: near_floor_def)

section \<open>Degenerate sizes\<close>

lemma round_double_of_int_eq_0_iff: "round_double (of_int n) = 0 \<longleftrightarrow> n = 0"
proof (cases "n = 0")
  case True
  then show ?thesis by (simp add: round_double_def)
next
  case False
  define x :: rat where "x = of_int n"
  have "1 \<le> \<bar>n\<bar>" using False by simp
  then have "(1::rat) \<le> of_int \<bar>n\<bar>" by (simp only: of_int_1_le_iff)
  then have one: "1 \<le> \<bar>x\<bar>" by (simp add: x_def)
  have "(2::rat) powi (- 1022) \<le> 2 powi 0"
    by (rule power_int_increasing) simp_all
  with one have "2 powi (- 1022) \<le> \<bar>x\<bar>" by simp
  from round_double_error [OF this] have "\<bar>round_double x - x\<bar> \<le> \<bar>x\<bar> / 2 ^ 53" .
  moreover have "\<bar>x\<bar> / 2 ^ 53 < \<bar>x\<bar>" using one by simp
  ultimately have "round_double x \<noteq> 0" by auto
  with False show ?thesis by (simp add: x_def)
qed

lemma py_float_cases:
  "py_float n = Inl OverflowError \<or> (\<exists>r. py_float n = Inr (Finite r) \<and> (r = 0 \<longleftrightarrow> n = 0))"
  using round_double_of_int_eq_0_iff [of n]
  by (simp add: py_float_def to_double_def overflow_check_def)

lemma py_float_0: "py_float 0 = Inr (Finite 0)"
  using py_float_small [of 0] by simp

lemma float_div_zero: "float_div a (Finite 0) = Inl ZeroDivisionError"
  by (cases a) simp_all

lemma int_over_float_zero:
  "int_over_float m 0 = Inl ZeroDivisionError \<or> int_over_float m 0 = Inl OverflowError"
  using py_float_cases [of m]
  by (auto simp: int_over_float_def and_then_def py_float_0 float_div_zero)

lemma int_over_float_nonzero:
  assumes "d \<noteq> 0"
  shows "int_over_float m d = Inl OverflowError \<or> (\<exists>x. int_over_float m d = Inr x)"
  using py_float_cases [of m] py_float_cases [of d] assms
  by (auto simp: int_over_float_def and_then_def)

lemma round_double_near: "\<bar>round_double x - x\<bar> \<le> \<bar>x\<bar> + 1"
proof (cases "x = 0")
  case True
  then show ?thesis by (simp add: round_double_def)
next
  case False
  then have pos: "0 < \<bar>x\<bar>" by simp
  define e where "e = ilog2 \<bar>x\<bar>"
  define m where "m = max e (- 1022)"
  have rd: "round_double x = quantize (2 powi (m - 52)) x"
    using False by (simp add: round_double_def e_def m_def)
  have err: "\<bar>round_double x - x\<bar> \<le> 2 powi (m - 52) / 2"
    unfolding rd by (rule quantize_error) simp
  show ?thesis
  proof (cases "- 1022 \<le> e")
    case True
    then have "m = e" by (simp add: m_def)
    have "(2::rat) powi (m - 52) \<le> 2 powi e"
      unfolding \<open>m = e\<close> by (rule power_int_increasing) simp_all
    also have "\<dots> \<le> \<bar>x\<bar>" unfolding e_def using ilog2_bounds(1) [OF pos] .
    finally have "(2::rat) powi (m - 52) \<le> \<bar>x\<bar>" .
    moreover have "(0::rat) < 2 powi (m - 52)" by simp
    ultimately show ?thesis using err by linarith
  next
    case False
    then have "m = - 1022" by (simp add: m_def)
    have "(2::rat) powi (m - 52) \<le> 2 powi 0"
      unfolding \<open>m = - 1022\<close> by (rule power_int_increasing) simp_all
    then have "(2::rat) powi (m - 52) \<le> 1" by simp
    moreover have "(0::rat) < 2 powi (m - 52)" by simp
    ultimately show ?thesis using err pos by linarith
  qed
qed

lemma to_double_bounded:
  assumes "\<bar>x\<bar> \<le> 2 ^ 60"
  shows "to_double x = Finite (round_double x)" and "\<bar>round_double x\<bar> \<le> 2 * \<bar>x\<bar> + 1"
proof -
  from round_double_near [of x] show b: "\<bar>round_double x\<bar> \<le> 2 * \<bar>x\<bar> + 1" by linarith
  have "2 * \<bar>x\<bar> + 1 \<le> 2 * 2 ^ 60 + (1::rat)" using assms by simp
  also have "\<dots> < 2 ^ 1024" by simp
  finally have "\<bar>round_double x\<bar> < 2 ^ 1024" using b by simp
  then show "to_double x = Finite (round_double x)" by (rule to_double_finite)
qed

lemma py_float_finite:
  assumes "\<bar>n\<bar> < 2 ^ 1023"
  shows "\<exists>r. py_float n = Inr (Finite r) \<and> (r = 0 \<longleftrightarrow> n = 0)"
proof -
  define x :: rat where "x = of_int n"
  have "\<bar>n\<bar> \<le> 2 ^ 1023 - 1" using assms by simp
  then have "(of_int \<bar>n\<bar> :: rat) \<le> of_int (2 ^ 1023 - 1)" by (simp only: of_int_le_iff)
  then have ax: "\<bar>x\<bar> \<le> 2 ^ 1023 - 1" by (simp add: x_def)
  from round_double_near [of x] have "\<bar>round_double x\<bar> \<le> 2 * \<bar>x\<bar> + 1" by linarith
  also have "\<dots> \<le> 2 * (2 ^ 1023 - 1) + 1" using ax by simp
  also have "\<dots> < (2::rat) ^ 1024" by simp
  finally have "\<bar>round_double x\<bar> < 2 ^ 1024" .
  then have "to_double x = Finite (round_double x)" by (rule to_double_finite)
  then have "py_float n = Inr (Finite (round_double (of_int n)))"
    by (simp add: py_float_def x_def)
  with round_double_of_int_eq_0_iff [of n] show ?thesis by simp
qed

lemma int_over_float_zero_division:
  assumes "\<bar>m\<bar> < 2 ^ 1023"
  shows "int_over_float m 0 = Inl ZeroDivisionError"
proof -
  from py_float_finite [OF assms] obtain r where "py_float m = Inr (Finite r)" by blast
  then show ?thesis
    by (simp add: int_over_float_def and_then_def py_float_0)
qed

lemma int_over_float_returns:
  assumes "\<bar>m\<bar> < 2 ^ 1023" "\<bar>d\<bar> < 2 ^ 1023" "d \<noteq> 0"
  shows "\<exists>x. int_over_float m d = Inr x"
proof -
  from py_float_finite [OF assms(1)] obtain r where r: "py_float m = Inr (Finite r)" by blast
  from py_float_finite [OF assms(2)] assms(3) obtain q
    where q: "py_float d = Inr (Finite q)" "q \<noteq> 0" by blast
  then show ?thesis using r
    by (simp add: int_over_float_def and_then_def)
qed

lemma calc_size_zero_division:
  assumes nc: "\<not> (maxW \<ge> w \<and> maxH \<ge> h)" and z: "w = 0 \<or> h = 0"
    and b: "\<bar>maxW\<bar> < 2 ^ 1023" "\<bar>maxH\<bar> < 2 ^ 1023" "\<bar>w\<bar> < 2 ^ 1023" "\<bar>h\<bar> < 2 ^ 1023"
  shows "calc_size (maxW, maxH) (w, h) = Inl ZeroDivisionError"
proof -
  have cs: "calc_size (maxW, maxH) (w, h) =
      and_then (int_over_float maxW w) (\<lambda>a.
      and_then (int_over_float maxH h) (\<lambda>b.
      let scale = py_min a b in
      and_then (int_scaled w scale) (\<lambda>out_width.
      and_then (int_scaled h scale) (\<lambda>out_height.
        Inr (out_width, out_height)))))"
    by (simp only: calc_size_def prod.case if_not_P [OF nc])
  show ?thesis
  proof (cases "w = 0")
    case True
    with int_over_float_zero_division [OF b(1)] show ?thesis
      unfolding cs by (simp add: and_then_def)
  next
    case False
    with z have h: "h = 0" by simp
    from int_over_float_returns [OF b(1) b(3) False] obtain x
      where x: "int_over_float maxW w = Inr x" by blast
    note cs0 = cs [unfolded h]
    from int_over_float_zero_division [OF b(2)] x show ?thesis
      unfolding h by (simp add: cs0 and_then_def)
  qed
qed

lemma abs_of_int_le_2_25:
  assumes "\<bar>n\<bar> \<le> 2 ^ 25"
  shows "\<bar>of_int n :: rat\<bar> \<le> 2 ^ 25"
proof -
  have "(of_int \<bar>n\<bar> :: rat) \<le> of_int (2 ^ 25)" using assms by (simp only: of_int_le_iff)
  then show ?thesis by simp
qed

lemma abs_small_lt_2_53: "\<bar>n::int\<bar> \<le> 2 ^ 25 \<Longrightarrow> \<bar>n\<bar> < 2 ^ 53"
  by simp

lemma round_double_rel:
  assumes "x = 0 \<or> 2 powi (- 1022) \<le> \<bar>x\<bar>"
  shows "\<bar>round_double x - x\<bar> \<le> \<bar>x\<bar> / 2 ^ 53"
proof (cases "x = 0")
  case True
  then show ?thesis by (simp add: round_double_def)
next
  case False
  with assms show ?thesis by (intro round_double_error) simp
qed

lemma ratio_normal:
  fixes m d :: int
  assumes "\<bar>m\<bar> \<le> 2 ^ 25" "\<bar>d\<bar> \<le> 2 ^ 25" "d \<noteq> 0"
  shows "\<bar>of_int m / of_int d :: rat\<bar> \<le> 2 ^ 25"
    and "(of_int m / of_int d :: rat) = 0 \<or> 1 / 2 ^ 25 \<le> \<bar>of_int m / of_int d :: rat\<bar>"
proof -
  define x :: rat where "x = of_int m / of_int d"
  have "1 \<le> \<bar>d\<bar>" using assms(3) by simp
  then have "(1::rat) \<le> of_int \<bar>d\<bar>" by (simp only: of_int_1_le_iff)
  then have d1: "(1::rat) \<le> \<bar>of_int d\<bar>" by simp
  have d2: "\<bar>of_int d :: rat\<bar> \<le> 2 ^ 25" by (rule abs_of_int_le_2_25 [OF assms(2)])
  have m2: "\<bar>of_int m :: rat\<bar> \<le> 2 ^ 25" by (rule abs_of_int_le_2_25 [OF assms(1)])
  have ax: "\<bar>x\<bar> = \<bar>of_int m\<bar> / \<bar>of_int d\<bar>" by (simp add: x_def)
  have "\<bar>x\<bar> \<le> \<bar>of_int m\<bar> / 1"
    unfolding ax using d1 by (intro divide_left_mono) simp_all
  with m2 show "\<bar>of_int m / of_int d :: rat\<bar> \<le> 2 ^ 25" by (simp add: x_def)
  show "(of_int m / of_int d :: rat) = 0 \<or> 1 / 2 ^ 25 \<le> \<bar>of_int m / of_int d :: rat\<bar>"
  proof (cases "m = 0")
    case True
    then show ?thesis by simp
  next
    case False
    then have "1 \<le> \<bar>m\<bar>" by simp
    then have "(1::rat) \<le> of_int \<bar>m\<bar>" by (simp only: of_int_1_le_iff)
    then have m1: "(1::rat) \<le> \<bar>of_int m\<bar>" by simp
    have "1 / 2 ^ 25 \<le> 1 / \<bar>of_int d :: rat\<bar>"
      using d1 d2 by (intro divide_left_mono) simp_all
    also have "\<dots> \<le> \<bar>of_int m\<bar> / \<bar>of_int d :: rat\<bar>"
      using m1 d1 by (intro divide_right_mono) simp_all
    finally have "1 / 2 ^ 25 \<le> \<bar>x\<bar>" by (simp add: ax)
    then show ?thesis by (simp add: x_def)
  qed
qed

lemma int_over_float_close:
  fixes m d :: int
  assumes "\<bar>m\<bar> \<le> 2 ^ 25" "\<bar>d\<bar> \<le> 2 ^ 25" "d \<noteq> 0"
  shows "\<exists>a. int_over_float m d = Inr (Finite a) \<and>
     \<bar>a - of_int m / of_int d\<bar> \<le> 1 / 2 ^ 28 \<and> (a = 0 \<or> 1 / 2 ^ 26 \<le> \<bar>a\<bar>)"
proof -
  define x :: rat where "x = of_int m / of_int d"
  note rn = ratio_normal [OF assms, folded x_def]
  have norm: "x = 0 \<or> 2 powi (- 1022) \<le> \<bar>x\<bar>"
    using rn(2) tiny_le by auto
  have err: "\<bar>round_double x - x\<bar> \<le> \<bar>x\<bar> / 2 ^ 53" by (rule round_double_rel [OF norm])
  have "\<bar>x\<bar> / 2 ^ 53 \<le> 2 ^ 25 / 2 ^ 53" using rn(1) by (intro divide_right_mono) simp_all
  also have "\<dots> = (1::rat) / 2 ^ 28" by simp
  finally have e28: "\<bar>round_double x - x\<bar> \<le> 1 / 2 ^ 28" using err by linarith
  have low: "round_double x = 0 \<or> 1 / 2 ^ 26 \<le> \<bar>round_double x\<bar>"
  proof (cases "x = 0")
    case True
    then show ?thesis by (simp add: round_double_def)
  next
    case False
    with rn(2) have lo: "1 / 2 ^ 25 \<le> \<bar>x\<bar>" by simp
    have "\<bar>x\<bar> / 2 ^ 53 \<le> \<bar>x\<bar> / 2" by (intro divide_left_mono) simp_all
    with err have "\<bar>x\<bar> / 2 \<le> \<bar>round_double x\<bar>" by linarith
    moreover have "(1::rat) / 2 ^ 26 \<le> \<bar>x\<bar> / 2" using lo by simp
    ultimately show ?thesis by linarith
  qed
  have "\<bar>x\<bar> \<le> 2 ^ 60" using rn(1) by (rule order_trans) simp
  note td = to_double_bounded [OF this]
  have "int_over_float m d = float_div (Finite (of_int m)) (Finite (of_int d))"
    using py_float_small [OF abs_small_lt_2_53 [OF assms(1)]]
      py_float_small [OF abs_small_lt_2_53 [OF assms(2)]]
    by (simp add: int_over_float_def and_then_def)
  also have "\<dots> = Inr (Finite (round_double x))"
    using assms(3) td(1) by (simp add: x_def)
  finally show ?thesis using e28 low unfolding x_def by blast
qed

lemma min_close:
  fixes a c a' c' e :: rat
  assumes "\<bar>a' - a\<bar> \<le> e" "\<bar>c' - c\<bar> \<le> e"
  shows "\<bar>min a' c' - min a c\<bar> \<le> e"
  using assms by (auto simp: min_def abs_le_iff)

lemma trunc_zero_close: "\<bar>of_int (trunc_zero r) - r\<bar> < 1"
proof (cases "0 \<le> r")
  case True
  have "of_int \<lfloor>r\<rfloor> \<le> r" "r < of_int \<lfloor>r\<rfloor> + 1" by linarith+
  with True show ?thesis by (simp add: trunc_zero_def abs_less_iff)
next
  case False
  have "r \<le> of_int \<lceil>r\<rceil>" "of_int \<lceil>r\<rceil> < r + 1" by linarith+
  with False show ?thesis by (simp add: trunc_zero_def abs_less_iff)
qed

lemma int_scaled_close:
  fixes d :: int and s t :: rat
  assumes d: "\<bar>d\<bar> \<le> 2 ^ 25" and st: "\<bar>s - t\<bar> \<le> 1 / 2 ^ 28" and tb: "\<bar>t\<bar> \<le> 2 ^ 25"
    and sn: "s = 0 \<or> 1 / 2 ^ 26 \<le> \<bar>s\<bar>" and dz: "d \<noteq> 0"
  shows "\<exists>n. int_scaled d (Finite s) = Inr n \<and> \<bar>of_int n - of_int d * t\<bar> < 2"
proof -
  define y :: rat where "y = of_int d * s"
  have dr: "\<bar>of_int d :: rat\<bar> \<le> 2 ^ 25" by (rule abs_of_int_le_2_25 [OF d])
  have "1 \<le> \<bar>d\<bar>" using dz by simp
  then have "(1::rat) \<le> of_int \<bar>d\<bar>" by (simp only: of_int_1_le_iff)
  then have d1: "(1::rat) \<le> \<bar>of_int d\<bar>" by simp
  have "(1::rat) / 2 ^ 28 \<le> 1" by simp
  with st have "\<bar>s - t\<bar> \<le> 1" by linarith
  with tb have sb: "\<bar>s\<bar> \<le> 2 ^ 25 + 1" by linarith
  have ay: "\<bar>y\<bar> = \<bar>of_int d\<bar> * \<bar>s\<bar>" by (simp add: y_def abs_mult)
  have "\<bar>y\<bar> \<le> 2 ^ 25 * (2 ^ 25 + 1)"
    unfolding ay using dr sb by (intro mult_mono) simp_all
  also have "\<dots> \<le> (2::rat) ^ 51" by simp
  finally have y51: "\<bar>y\<bar> \<le> 2 ^ 51" .
  then have "\<bar>y\<bar> \<le> 2 ^ 60" by (rule order_trans) simp
  note td = to_double_bounded [OF this]
  have norm: "y = 0 \<or> 2 powi (- 1022) \<le> \<bar>y\<bar>"
  proof (cases "s = 0")
    case True
    then show ?thesis by (simp add: y_def)
  next
    case False
    with sn have "1 / 2 ^ 26 \<le> \<bar>s\<bar>" by simp
    also have "\<dots> = 1 * \<bar>s\<bar>" by simp
    also have "\<dots> \<le> \<bar>of_int d\<bar> * \<bar>s\<bar>" using d1 by (intro mult_right_mono) simp_all
    finally have "1 / 2 ^ 26 \<le> \<bar>y\<bar>" by (simp add: ay)
    moreover have "(2::rat) powi (- 1022) \<le> 2 powi (- 26)"
      by (rule power_int_increasing) simp_all
    moreover have "(2::rat) powi (- 26) = 1 / 2 ^ 26" by (simp add: power_int_minus_divide)
    ultimately show ?thesis by simp
  qed
  have "\<bar>round_double y - y\<bar> \<le> \<bar>y\<bar> / 2 ^ 53" by (rule round_double_rel [OF norm])
  also have "\<dots> \<le> 2 ^ 51 / 2 ^ 53" using y51 by (intro divide_right_mono) simp_all
  also have "\<dots> = (1::rat) / 4" by simp
  finally have e1: "\<bar>round_double y - y\<bar> \<le> 1 / 4" .
  have "\<bar>y - of_int d * t\<bar> = \<bar>of_int d\<bar> * \<bar>s - t\<bar>"
    by (simp add: y_def abs_mult [symmetric] algebra_simps)
  also have "\<dots> \<le> 2 ^ 25 * (1 / 2 ^ 28)" using dr st by (intro mult_mono) simp_all
  also have "\<dots> = (1::rat) / 8" by simp
  finally have e2: "\<bar>y - of_int d * t\<bar> \<le> 1 / 8" .
  have e3: "\<bar>of_int (trunc_zero (round_double y)) - round_double y\<bar> < 1"
    by (rule trunc_zero_close)
  have close: "\<bar>of_int (trunc_zero (round_double y)) - of_int d * t\<bar> < 2"
    using e1 e2 e3 by linarith
  have "int_scaled d (Finite s) = Inr (trunc_zero (round_double y))"
    using py_float_small [OF abs_small_lt_2_53 [OF d]] td(1)
    by (simp add: int_scaled_def and_then_def y_def)
  with close show ?thesis by blast
qed

lemma calc_size_signed_close:
  assumes nc: "\<not> (maxW \<ge> w \<and> maxH \<ge> h)" and nz: "w \<noteq> 0" "h \<noteq> 0"
    and b: "\<bar>maxW\<bar> \<le> 2 ^ 25" "\<bar>maxH\<bar> \<le> 2 ^ 25" "\<bar>w\<bar> \<le> 2 ^ 25" "\<bar>h\<bar> \<le> 2 ^ 25"
  shows "\<exists>out_w out_h. calc_size (maxW, maxH) (w, h) = Inr (out_w, out_h) \<and>
     \<bar>of_int out_w - of_int w * spec_scale (maxW, maxH) (w, h)\<bar> < 2 \<and>
     \<bar>of_int out_h - of_int h * spec_scale (maxW, maxH) (w, h)\<bar> < 2"
proof -
  define x :: rat where "x = of_int maxW / of_int w"
  define y :: rat where "y = of_int maxH / of_int h"
  define t where "t = min x y"
  have t: "spec_scale (maxW, maxH) (w, h) = t" by (simp add: spec_scale_def t_def x_def y_def)
  from int_over_float_close [OF b(1) b(3) nz(1)] obtain a
    where a: "int_over_float maxW w = Inr (Finite a)" "\<bar>a - x\<bar> \<le> 1 / 2 ^ 28"
      "a = 0 \<or> 1 / 2 ^ 26 \<le> \<bar>a\<bar>" unfolding x_def by blast
  from int_over_float_close [OF b(2) b(4) nz(2)] obtain c
    where c: "int_over_float maxH h = Inr (Finite c)" "\<bar>c - y\<bar> \<le> 1 / 2 ^ 28"
      "c = 0 \<or> 1 / 2 ^ 26 \<le> \<bar>c\<bar>" unfolding y_def by blast
  define s where "s = (if c < a then c else a)"
  have s: "py_min (Finite a) (Finite c) = Finite s" by (simp add: py_min_def s_def)
  have smin: "s = min a c" by (simp add: s_def min_def)
  have st: "\<bar>s - t\<bar> \<le> 1 / 2 ^ 28" unfolding smin t_def by (rule min_close [OF a(2) c(2)])
  have sn: "s = 0 \<or> 1 / 2 ^ 26 \<le> \<bar>s\<bar>" using a(3) c(3) by (simp add: s_def)
  have xb: "\<bar>x\<bar> \<le> 2 ^ 25" unfolding x_def by (rule ratio_normal(1) [OF b(1) b(3) nz(1)])
  have yb: "\<bar>y\<bar> \<le> 2 ^ 25" unfolding y_def by (rule ratio_normal(1) [OF b(2) b(4) nz(2)])
  have tb: "\<bar>t\<bar> \<le> 2 ^ 25" using xb yb by (simp add: t_def min_def)
  from int_scaled_close [OF b(3) st tb sn nz(1)] obtain ow
    where ow: "int_scaled w (Finite s) = Inr ow" "\<bar>of_int ow - of_int w * t\<bar> < 2" by blast
  from int_scaled_close [OF b(4) st tb sn nz(2)] obtain oh
    where oh: "int_scaled h (Finite s) = Inr oh" "\<bar>of_int oh - of_int h * t\<bar> < 2" by blast
  have "calc_size (maxW, maxH) (w, h) =
      and_then (int_over_float maxW w) (\<lambda>a.
      and_then (int_over_float maxH h) (\<lambda>b.
      let scale = py_min a b in
      and_then (int_scaled w scale) (\<lambda>out_width.
      and_then (int_scaled h scale) (\<lambda>out_height.
        Inr (out_width, out_height)))))"
    by (simp only: calc_size_def prod.case if_not_P [OF nc])
  also have "\<dots> = Inr (ow, oh)"
    by (simp add: a(1) c(1) s ow(1) oh(1) and_then_def)
  finally show ?thesis using ow(2) oh(2) unfolding t by blast
qed

section \<open>Evaluated examples\<close>

lemma calc_size_negative_source_example: "calc_size (10, 2) (- 5, 3) = Inr (10, - 6)"
  by code_simp

lemma calc_size_line_example: "calc_size (100, 100) (1000, 1) = Inr (100, 0)"
  by code_simp

lemma calc_size_rounding_example: "calc_size (100, 100) (161, 100) = Inr (99, 62)"
  by code_simp

lemma calc_size_negative_box_example: "calc_size (- 1, 5) (3, 2) = Inr (- 1, 0)"
  by code_simp

lemma calc_size_huge_example:
  "calc_size (9007199254740995, 1) (9007199254740997, 1) = Inr (9007199254740996, 1)"
  by code_simp

lemma calc_size_negative_width_example: "calc_size (- 1, 100) (49, 1) = Inr (0, 0)"
  by code_simp


lemma spec_fit_examples:
  "spec_fit (100, 100) (161, 100) = Some (100, 62)"
  "spec_fit (- 1, 5) (3, 2) = Some (- 1, - 1)"
  "spec_fit (9007199254740995, 1) (9007199254740997, 1) = Some (9007199254740995, 0)"
  by code_simp+

section \<open>Serving from the storage\<close>




text \<open>
  A request changes the storage only by saving the requested size of an image whose
  original is stored, so it keeps the invariant: no size is stored without its original.
\<close>

lemma store_save_keeps_originals:
  assumes "originals_present s" and "artifacts s (project, name, extension, None) \<noteq> None"
  shows "originals_present (store_save s (project, name, extension, size') data)"
  unfolding originals_present_def
proof (intro allI impI)
  fix p n e z
  let ?s = "store_save s (project, name, extension, size') data"
  assume a: "artifacts ?s (p, n, e, z) \<noteq> None"
  show "artifacts ?s (p, n, e, None) \<noteq> None"
  proof (cases "(p, n, e) = (project, name, extension)")
    case True
    with assms(2) show ?thesis by (simp add: store_save_def)
  next
    case False
    with a have "artifacts s (p, n, e, z) \<noteq> None" by (auto simp: store_save_def)
    with assms(1) have "artifacts s (p, n, e, None) \<noteq> None"
      unfolding originals_present_def by blast
    with False show ?thesis by (auto simp: store_save_def)
  qed
qed

lemma resize_image_storage:
  assumes "resize_image ps cd project name extension size' st = (r, st')"
  shows "storage st' = storage st \<or>
    (artifacts (storage st) (project, name, extension, None) \<noteq> None \<and>
     (\<exists>data. storage st' = store_save (storage st) (project, name, extension, size') data))"
  using assms
  by (auto simp: resize_image_def bind_def storage_exists_def storage_get_def store_exists_def
      pure_call_def codec_call_def save_image_def storage_save_def
      record_call_def
      split: if_splits sum.splits prod.splits)

lemma serve_image_storage:
  assumes "serve_image ps cd project name size' extension st = (r, st')"
  shows "storage st' = storage st \<or>
    (artifacts (storage st) (project, name, extension, None) \<noteq> None \<and>
     (\<exists>data. storage st' = store_save (storage st) (project, name, extension, size') data))"
proof (cases "ps project")
  case None
  with assms show ?thesis by (simp add: serve_image_def pure_call_def)
next
  case (Some dims)
  show ?thesis
  proof (cases "truthy size' \<and> \<not> size_configured dims size'")
    case True
    with assms Some show ?thesis by (simp add: serve_image_def pure_call_def)
  next
    case ok: False
    let ?k = "(project, name, extension, size')"
    let ?st = "record_call (StoreExists ?k) st"
    show ?thesis
    proof (cases "store_exists (storage st) ?k")
      case True
      with assms Some ok show ?thesis
        by (auto simp: serve_image_def bind_def storage_exists_def storage_get_def
            pure_call_def record_call_def split: sum.splits prod.splits)
    next
      case False
      obtain r1 st1 where r1: "resize_image ps cd project name extension size' ?st = (r1, st1)"
        by (cases "resize_image ps cd project name extension size' ?st")
      from assms Some ok False r1 have "st' = st1"
        by (auto simp: serve_image_def bind_def storage_exists_def pure_call_def
            split: sum.splits prod.splits)
      with resize_image_storage [OF r1] show ?thesis
        by (simp add: record_call_def)
    qed
  qed
qed

lemma serve_image_keeps_originals:
  assumes "serve_image ps cd project name size' extension st = (r, st')"
    and "originals_present (storage st)"
  shows "originals_present (storage st')"
  using serve_image_storage [OF assms(1)] assms(2) store_save_keeps_originals
  by auto

text \<open>
  Only a writable handle changes the storage: the bytes written replace the start of the
  artifact that the handle views.
\<close>

lemma handle_write_writable:
  "handle_write s \<lparr>target = k, writable = True, buffer = old\<rparr> data =
     (Inr (), s\<lparr>artifacts := (artifacts s)(k \<mapsto> data @ drop (length data) old)\<rparr>)"
  by (simp add: handle_write_def)


section \<open>Properties of the size calculation\<close>

text \<open>
  C2, as the code has it: for a source size and a bounding box with all four numbers
  between 1 and \<open>2 ^ 25\<close>, where the box does not contain the source, \<open>_calc_size\<close>
  returns a size, and each returned dimension is the specified \<open>floor (scale * dimension)\<close>
  or, only where \<open>scale * dimension\<close> is an integer, one less (the float product may fall
  just below that integer).
\<close>

theorem calc_size_close_to_spec:
  fixes maxW maxH w h :: int
  assumes "0 < w" "w \<le> 2 ^ 25" "0 < h" "h \<le> 2 ^ 25"
    and "0 < maxW" "maxW \<le> 2 ^ 25" "0 < maxH" "maxH \<le> 2 ^ 25"
    and "\<not> (maxW \<ge> w \<and> maxH \<ge> h)"
  shows "\<exists>out_w out_h fit_w fit_h.
      calc_size (maxW, maxH) (w, h) = Inr (out_w, out_h) \<and>
      spec_fit (maxW, maxH) (w, h) = Some (fit_w, fit_h) \<and>
      (out_w = fit_w \<or>
        (out_w = fit_w - 1 \<and> spec_scale (maxW, maxH) (w, h) * of_int w = of_int fit_w)) \<and>
      (out_h = fit_h \<or>
        (out_h = fit_h - 1 \<and> spec_scale (maxW, maxH) (w, h) * of_int h = of_int fit_h))"
proof -
  from calc_size_downscale [OF assms] obtain out_w out_h where
    cs: "calc_size (maxW, maxH) (w, h) = Inr (out_w, out_h)"
    and nw: "near_floor (of_int w * min (of_int maxW / of_int w) (of_int maxH / of_int h)) out_w"
    and nh: "near_floor (of_int h * min (of_int maxW / of_int w) (of_int maxH / of_int h)) out_h"
    by blast
  have sf: "spec_fit (maxW, maxH) (w, h) =
      Some (\<lfloor>spec_scale (maxW, maxH) (w, h) * of_int w\<rfloor>,
            \<lfloor>spec_scale (maxW, maxH) (w, h) * of_int h\<rfloor>)"
    using assms(1,3,9) by (auto simp: spec_fit_def)
  have sc: "spec_scale (maxW, maxH) (w, h) =
      min (of_int maxW / of_int w) (of_int maxH / of_int h)"
    by (simp add: spec_scale_def)
  have nw': "near_floor (spec_scale (maxW, maxH) (w, h) * of_int w) out_w"
    using nw by (simp add: sc mult.commute)
  have nh': "near_floor (spec_scale (maxW, maxH) (w, h) * of_int h) out_h"
    using nh by (simp add: sc mult.commute)
  from nw' nh' show ?thesis
    by (auto simp: cs sf near_floor_def)
qed

theorem calc_size_close_to_spec_witness:
  "(0::int) < 161 \<and> (161::int) \<le> 2 ^ 25 \<and> (0::int) < 100 \<and> (100::int) \<le> 2 ^ 25 \<and>
   \<not> ((100::int) \<ge> 161 \<and> (100::int) \<ge> 100) \<and>
   (\<exists>out_w out_h fit_w fit_h.
      calc_size (100, 100) (161, 100) = Inr (out_w, out_h) \<and>
      spec_fit (100, 100) (161, 100) = Some (fit_w, fit_h) \<and>
      (out_w = fit_w \<or>
        (out_w = fit_w - 1 \<and> spec_scale (100, 100) (161, 100) * of_int 161 = of_int fit_w)) \<and>
      (out_h = fit_h \<or>
        (out_h = fit_h - 1 \<and> spec_scale (100, 100) (161, 100) * of_int 100 = of_int fit_h)))"
  using calc_size_close_to_spec [of 161 100 100 100] by simp

text \<open>
  The returned size is not always the specified one: float rounding loses a pixel for
  the source \<open>161 x 100\<close> in the box \<open>100 x 100\<close>; \<open>int\<close> truncates towards zero where the
  box is negative; beyond \<open>2 ^ 53\<close> the conversion to float changes the operands.
\<close>

theorem calc_size_differs_from_spec:
  "calc_size (100, 100) (161, 100) = Inr (99, 62) \<and>
   spec_fit (100, 100) (161, 100) = Some (100, 62) \<and>
   calc_size (- 1, 5) (3, 2) = Inr (- 1, 0) \<and>
   spec_fit (- 1, 5) (3, 2) = Some (- 1, - 1) \<and>
   calc_size (9007199254740995, 1) (9007199254740997, 1) = Inr (9007199254740996, 1) \<and>
   spec_fit (9007199254740995, 1) (9007199254740997, 1) = Some (9007199254740995, 0)"
  using calc_size_rounding_example calc_size_negative_box_example calc_size_huge_example
    spec_fit_examples by simp

text \<open>
  C3: for a source size \<open>(w, h)\<close> with \<open>w, h > 0\<close> and a bounding box with
  \<open>maxW \<ge> w\<close> and \<open>maxH \<ge> h\<close>, the size calculation returns \<open>(w, h)\<close> unchanged:
  it never upscales.
\<close>

theorem calc_size_never_upscales:
  "0 < w \<Longrightarrow> 0 < h \<Longrightarrow> maxW \<ge> w \<Longrightarrow> maxH \<ge> h \<Longrightarrow>
   calc_size (maxW, maxH) (w, h) = Inr (w, h)"
  by (simp add: calc_size_def)

theorem calc_size_never_upscales_witness:
  "(0::int) < 200 \<and> (0::int) < 400 \<and> (1000::int) \<ge> 200 \<and> (400::int) \<ge> 400 \<and>
   calc_size (1000, 400) (200, 400) = Inr (200, 400)"
  using calc_size_never_upscales [of 200 400 1000 400] by simp

text \<open>
  C4, as the code has it: for a source size and a bounding box with all four numbers
  between 1 and \<open>2 ^ 25\<close>, where the box does not contain the source, both returned
  dimensions are at most those of the box, the aspect ratio is kept up to one pixel
  (\<open>\<bar>outW * h - outH * w\<bar> \<le> max w h\<close>), and one returned dimension is that of the box or
  one less.
\<close>

theorem calc_size_fits_box:
  fixes maxW maxH w h :: int
  assumes "0 < w" "w \<le> 2 ^ 25" "0 < h" "h \<le> 2 ^ 25"
    and "0 < maxW" "maxW \<le> 2 ^ 25" "0 < maxH" "maxH \<le> 2 ^ 25"
    and "\<not> (maxW \<ge> w \<and> maxH \<ge> h)"
  shows "\<exists>out_w out_h.
      calc_size (maxW, maxH) (w, h) = Inr (out_w, out_h) \<and>
      out_w \<le> maxW \<and> out_h \<le> maxH \<and>
      \<bar>out_w * h - out_h * w\<bar> \<le> max w h \<and>
      (out_w = maxW \<or> out_w = maxW - 1 \<or> out_h = maxH \<or> out_h = maxH - 1)"
proof -
  define a :: rat where "a = of_int maxW / of_int w"
  define b :: rat where "b = of_int maxH / of_int h"
  define t where "t = min a b"
  from calc_size_downscale [OF assms] obtain out_w out_h where
    cs: "calc_size (maxW, maxH) (w, h) = Inr (out_w, out_h)"
    and nw: "near_floor (of_int w * t) out_w"
    and nh: "near_floor (of_int h * t) out_h"
    unfolding t_def a_def b_def by blast
  have wr: "(0::rat) < of_int w" and hr: "(0::rat) < of_int h" using assms(1,3) by simp_all
  have ta: "of_int w * a = of_int maxW" and tb: "of_int h * b = of_int maxH"
    using wr hr by (simp_all add: a_def b_def)
  note bw = near_floor_bounds [OF nw]
  note bh = near_floor_bounds [OF nh]
  have "of_int w * t \<le> of_int w * a" using wr by (intro mult_left_mono) (simp_all add: t_def)
  with bw(1) have "(of_int out_w :: rat) \<le> of_int maxW" by (simp add: ta)
  then have le_w: "out_w \<le> maxW" by (simp only: of_int_le_iff)
  have "of_int h * t \<le> of_int h * b" using hr by (intro mult_left_mono) (simp_all add: t_def)
  with bh(1) have "(of_int out_h :: rat) \<le> of_int maxH" by (simp add: tb)
  then have le_h: "out_h \<le> maxH" by (simp only: of_int_le_iff)
  define e1 :: rat where "e1 = of_int w * t - of_int out_w"
  define e2 :: rat where "e2 = of_int h * t - of_int out_h"
  have e1: "0 \<le> e1" "e1 \<le> 1" using bw by (simp_all add: e1_def)
  have e2: "0 \<le> e2" "e2 \<le> 1" using bh by (simp_all add: e2_def)
  have diff: "(of_int (out_w * h - out_h * w) :: rat) = e2 * of_int w - e1 * of_int h"
    by (simp add: e1_def e2_def algebra_simps)
  have p1: "e1 * of_int h \<le> 1 * (of_int h :: rat)" using e1 hr by (intro mult_right_mono) auto
  have p2: "e2 * of_int w \<le> 1 * (of_int w :: rat)" using e2 wr by (intro mult_right_mono) auto
  have p3: "0 \<le> e1 * (of_int h :: rat)" "0 \<le> e2 * (of_int w :: rat)"
    using e1 e2 wr hr by simp_all
  have "(of_int (out_w * h - out_h * w) :: rat) \<le> of_int w"
    using p2 p3 unfolding diff by linarith
  then have up: "out_w * h - out_h * w \<le> w" by (simp only: of_int_le_iff)
  have "(of_int (- h) :: rat) \<le> of_int (out_w * h - out_h * w)"
    using p1 p3 unfolding diff by simp
  then have lo: "- h \<le> out_w * h - out_h * w" by (simp only: of_int_le_iff)
  have aspect: "\<bar>out_w * h - out_h * w\<bar> \<le> max w h" using up lo by simp
  have tight: "out_w = maxW \<or> out_w = maxW - 1 \<or> out_h = maxH \<or> out_h = maxH - 1"
  proof (cases "a \<le> b")
    case True
    then have "of_int w * t = of_int maxW" by (simp add: t_def min_def ta)
    with nw near_floor_of_int show ?thesis by metis
  next
    case False
    then have "of_int h * t = of_int maxH" by (simp add: t_def min_def tb)
    with nh near_floor_of_int show ?thesis by metis
  qed
  from cs le_w le_h aspect tight show ?thesis by blast
qed

theorem calc_size_fits_box_witness:
  "(0::int) < 200 \<and> (200::int) \<le> 2 ^ 25 \<and> (0::int) < 400 \<and> (400::int) \<le> 2 ^ 25 \<and>
   (0::int) < 100 \<and> (100::int) \<le> 2 ^ 25 \<and>
   \<not> ((100::int) \<ge> 200 \<and> (100::int) \<ge> 400) \<and>
   (\<exists>out_w out_h.
      calc_size (100, 100) (200, 400) = Inr (out_w, out_h) \<and>
      out_w \<le> 100 \<and> out_h \<le> 100 \<and>
      \<bar>out_w * 400 - out_h * 200\<bar> \<le> max 200 400 \<and>
      (out_w = 100 \<or> out_w = 100 - 1 \<or> out_h = 100 \<or> out_h = 100 - 1))"
  using calc_size_fits_box [of 200 400 100 100] by simp

text \<open>
  Outside these bounds a returned dimension can exceed the box: for a negative box the
  truncated product \<open>0\<close> is above \<open>- 1\<close>, and beyond \<open>2 ^ 53\<close> the width converted to float
  is above the box.
\<close>

theorem calc_size_exceeds_box:
  "calc_size (- 1, 100) (49, 1) = Inr (0, 0) \<and> \<not> (0::int) \<le> - 1 \<and>
   calc_size (9007199254740995, 1) (9007199254740997, 1) = Inr (9007199254740996, 1) \<and>
   \<not> (9007199254740996::int) \<le> 9007199254740995"
  using calc_size_negative_width_example calc_size_huge_example by simp

text \<open>
  C5, as the code has it: \<open>_calc_size\<close> has no check of the source size and there is no
  \<open>InvalidSource\<close>.  For a source with \<open>w \<le> 0\<close> or \<open>h \<le> 0\<close>: where the box contains it,
  the source size is returned unchanged.  Where the box does not contain it and \<open>w = 0\<close>
  or \<open>h = 0\<close>, the division raises \<open>ZeroDivisionError\<close>; only with an operand of
  magnitude \<open>2 ^ 1023\<close> or more, too large for a float, it can be \<open>OverflowError\<close> instead.
  Where the box does not contain it and neither \<open>w\<close> nor \<open>h\<close> is \<open>0\<close>, with all four
  numbers of magnitude at most \<open>2 ^ 25\<close>, a size is returned, and each of its dimensions
  differs by less than 2 from \<open>scale * dimension\<close>, with the \<open>scale\<close> of the
  specification.
\<close>

theorem calc_size_degenerate:
  assumes "w \<le> 0 \<or> h \<le> 0"
  shows "(maxW \<ge> w \<and> maxH \<ge> h \<longrightarrow> calc_size (maxW, maxH) (w, h) = Inr (w, h)) \<and>
    (\<not> (maxW \<ge> w \<and> maxH \<ge> h) \<and> (w = 0 \<or> h = 0) \<longrightarrow>
       (calc_size (maxW, maxH) (w, h) = Inl ZeroDivisionError \<or>
        calc_size (maxW, maxH) (w, h) = Inl OverflowError) \<and>
       (\<bar>maxW\<bar> < 2 ^ 1023 \<and> \<bar>maxH\<bar> < 2 ^ 1023 \<and> \<bar>w\<bar> < 2 ^ 1023 \<and> \<bar>h\<bar> < 2 ^ 1023 \<longrightarrow>
        calc_size (maxW, maxH) (w, h) = Inl ZeroDivisionError)) \<and>
    (\<not> (maxW \<ge> w \<and> maxH \<ge> h) \<and> w \<noteq> 0 \<and> h \<noteq> 0 \<and>
     \<bar>maxW\<bar> \<le> 2 ^ 25 \<and> \<bar>maxH\<bar> \<le> 2 ^ 25 \<and> \<bar>w\<bar> \<le> 2 ^ 25 \<and> \<bar>h\<bar> \<le> 2 ^ 25 \<longrightarrow>
       (\<exists>out_w out_h. calc_size (maxW, maxH) (w, h) = Inr (out_w, out_h) \<and>
          \<bar>of_int out_w - of_int w * spec_scale (maxW, maxH) (w, h)\<bar> < 2 \<and>
          \<bar>of_int out_h - of_int h * spec_scale (maxW, maxH) (w, h)\<bar> < 2))"
proof (intro conjI impI)
  assume "maxW \<ge> w \<and> maxH \<ge> h"
  then show "calc_size (maxW, maxH) (w, h) = Inr (w, h)"
    by (simp add: calc_size_def)
next
  assume a: "\<not> (maxW \<ge> w \<and> maxH \<ge> h) \<and> (w = 0 \<or> h = 0)"
  then have nc: "\<not> (maxW \<ge> w \<and> maxH \<ge> h)" and z: "w = 0 \<or> h = 0" by blast+
  have cs: "calc_size (maxW, maxH) (w, h) =
      and_then (int_over_float maxW w) (\<lambda>a.
      and_then (int_over_float maxH h) (\<lambda>b.
      let scale = py_min a b in
      and_then (int_scaled w scale) (\<lambda>out_width.
      and_then (int_scaled h scale) (\<lambda>out_height.
        Inr (out_width, out_height)))))"
    by (simp only: calc_size_def prod.case if_not_P [OF nc])
  show "calc_size (maxW, maxH) (w, h) = Inl ZeroDivisionError \<or>
       calc_size (maxW, maxH) (w, h) = Inl OverflowError"
  proof (cases "w = 0")
    case True
    with int_over_float_zero [of maxW] show ?thesis
      unfolding cs by (auto simp: and_then_def)
  next
    case False
    with z have h: "h = 0" by simp
    note cs0 = cs [unfolded h]
    from int_over_float_nonzero [OF False, of maxW] int_over_float_zero [of maxH]
    show ?thesis
      unfolding h by (auto simp: cs0 and_then_def)
  qed
next
  assume "\<not> (maxW \<ge> w \<and> maxH \<ge> h) \<and> (w = 0 \<or> h = 0)"
    and "\<bar>maxW\<bar> < 2 ^ 1023 \<and> \<bar>maxH\<bar> < 2 ^ 1023 \<and> \<bar>w\<bar> < 2 ^ 1023 \<and> \<bar>h\<bar> < 2 ^ 1023"
  then show "calc_size (maxW, maxH) (w, h) = Inl ZeroDivisionError"
    using calc_size_zero_division by blast
next
  assume "\<not> (maxW \<ge> w \<and> maxH \<ge> h) \<and> w \<noteq> 0 \<and> h \<noteq> 0 \<and>
     \<bar>maxW\<bar> \<le> 2 ^ 25 \<and> \<bar>maxH\<bar> \<le> 2 ^ 25 \<and> \<bar>w\<bar> \<le> 2 ^ 25 \<and> \<bar>h\<bar> \<le> 2 ^ 25"
  then show "\<exists>out_w out_h. calc_size (maxW, maxH) (w, h) = Inr (out_w, out_h) \<and>
          \<bar>of_int out_w - of_int w * spec_scale (maxW, maxH) (w, h)\<bar> < 2 \<and>
          \<bar>of_int out_h - of_int h * spec_scale (maxW, maxH) (w, h)\<bar> < 2"
    using calc_size_signed_close by blast
qed

theorem calc_size_degenerate_witness:
  "((0::int) \<le> 0 \<or> (5::int) \<le> 0) \<and> (10::int) \<ge> 0 \<and> (10::int) \<ge> 5 \<and>
   calc_size (10, 10) (0, 5) = Inr (0, 5) \<and>
   \<not> ((- 1::int) \<ge> 0 \<and> (10::int) \<ge> 5) \<and> \<bar>- 1::int\<bar> < 2 ^ 1023 \<and>
   calc_size (- 1, 10) (0, 5) = Inl ZeroDivisionError \<and>
   \<not> ((10::int) \<ge> 5 \<and> (- 1::int) \<ge> 0) \<and>
   calc_size (10, - 1) (5, 0) = Inl ZeroDivisionError \<and>
   ((- 5::int) \<le> 0 \<or> (3::int) \<le> 0) \<and> \<not> ((10::int) \<ge> - 5 \<and> (2::int) \<ge> 3) \<and>
   \<bar>- 5::int\<bar> \<le> 2 ^ 25 \<and>
   (\<exists>out_w out_h. calc_size (10, 2) (- 5, 3) = Inr (out_w, out_h) \<and>
      \<bar>of_int out_w - of_int (- 5) * spec_scale (10, 2) (- 5, 3)\<bar> < 2 \<and>
      \<bar>of_int out_h - of_int 3 * spec_scale (10, 2) (- 5, 3)\<bar> < 2)"
  using calc_size_degenerate [of 0 5 10 10] calc_size_degenerate [of 0 5 "- 1" 10]
    calc_size_degenerate [of 5 0 10 "- 1"] calc_size_degenerate [of "- 5" 3 10 2]
  by simp

text \<open>
  A degenerate source is not rejected: the source \<open>0 x 5\<close> in the box \<open>10 x 10\<close> is
  returned as it is, and the source \<open>- 5 x 3\<close> in the box \<open>10 x 2\<close> is scaled by \<open>- 2\<close>.
\<close>

theorem calc_size_degenerate_returns:
  "calc_size (10, 10) (0, 5) = Inr (0, 5) \<and> calc_size (10, 2) (- 5, 3) = Inr (10, - 6)"
  using calc_size_negative_source_example by (simp add: calc_size_def)

section \<open>Properties of the service\<close>



text \<open>
  C6: for a request with an unknown project, or with a size that is not configured for
  the project, the service raises \<open>NotFound\<close> and has made no call to the storage (the
  state, with its record of calls, is unchanged).  The size of a request is the \<open><size>\<close>
  part of its URL, which is not empty; a request for an original has no size.
\<close>

theorem serve_image_unknown_not_found:
  assumes "size' \<noteq> []"
    and "ps project = None \<or> (\<exists>dims. ps project = Some dims \<and> dims size' = None)"
  shows "serve_resized_image ps cd project name size' extension st = (Inl NotFound, st) \<and>
    (ps project = None \<longrightarrow>
       serve_original_image ps cd project name extension st = (Inl NotFound, st))"
  using assms
  by (auto simp: serve_resized_image_def serve_original_image_def serve_image_def pure_call_def
      truthy_def size_configured_def)

theorem serve_image_unknown_not_found_witness:
  "''small'' \<noteq> [] \<and> demo_projects ''bla'' = None \<and>
   serve_resized_image demo_projects demo_codec ''bla'' ''welcome'' ''small'' ''jpg'' demo_state
     = (Inl NotFound, demo_state) \<and>
   serve_original_image demo_projects demo_codec ''bla'' ''welcome'' ''jpg'' demo_state
     = (Inl NotFound, demo_state) \<and>
   ''large'' \<noteq> [] \<and> demo_projects ''demo'' = Some [''small'' \<mapsto> (100, 100)] \<and>
   [''small'' \<mapsto> (100::int, 100::int)] ''large'' = None \<and>
   serve_resized_image demo_projects demo_codec ''demo'' ''welcome'' ''large'' ''jpg'' demo_state
     = (Inl NotFound, demo_state)"
proof -
  have n1: "''small'' \<noteq> []" and n2: "''large'' \<noteq> []" by simp_all
  have p1: "demo_projects ''bla'' = None" by (simp add: demo_projects_def)
  have p2: "demo_projects ''demo'' = Some [''small'' \<mapsto> (100, 100)]"
    by (simp add: demo_projects_def)
  have d2: "[''small'' \<mapsto> (100::int, 100::int)] ''large'' = None" by simp
  have h1: "demo_projects ''bla'' = None \<or>
      (\<exists>dims. demo_projects ''bla'' = Some dims \<and> dims ''small'' = None)"
    using p1 by simp
  have h2: "demo_projects ''demo'' = None \<or>
      (\<exists>dims. demo_projects ''demo'' = Some dims \<and> dims ''large'' = None)"
    using p2 d2 by simp
  from serve_image_unknown_not_found
    [where ps = demo_projects and project = "''bla''" and cd = demo_codec and st = demo_state
       and name = "''welcome''" and extension = "''jpg''", OF n1 h1]
    serve_image_unknown_not_found
    [where ps = demo_projects and project = "''demo''" and cd = demo_codec and st = demo_state
       and name = "''welcome''" and extension = "''jpg''", OF n2 h2]
    p1 p2 d2
  show ?thesis by simp
qed

text \<open>
  C7: for a known project and a configured size, when neither the image of that size nor
  the original is in the storage, \<open>_serve_image\<close> raises \<open>NotFound\<close>; it has asked the
  storage twice whether an image exists and has neither called the codec nor written.
\<close>

theorem serve_image_missing_original:
  assumes "ps project = Some dims" and "dims s = Some box"
    and "artifacts (storage st) (project, name, extension, Some s) = None"
    and "artifacts (storage st) (project, name, extension, None) = None"
  shows "serve_image ps cd project name (Some s) extension st =
     (Inl NotFound,
      st\<lparr>calls := calls st @
        [StoreExists (project, name, extension, Some s),
         StoreExists (project, name, extension, None)]\<rparr>)"
  using assms
  by (simp add: serve_image_def resize_image_def bind_def storage_exists_def store_exists_def
      pure_call_def record_call_def truthy_def size_configured_def)

theorem serve_image_missing_original_witness:
  "demo_projects ''demo'' = Some [''small'' \<mapsto> (100, 100)] \<and>
   [''small'' \<mapsto> (100::int, 100::int)] ''small'' = Some (100, 100) \<and>
   artifacts (storage empty_state) (''demo'', ''welcome'', ''jpg'', Some ''small'') = None \<and>
   artifacts (storage empty_state) (''demo'', ''welcome'', ''jpg'', None) = None \<and>
   serve_image demo_projects demo_codec ''demo'' ''welcome'' (Some ''small'') ''jpg'' empty_state
     = (Inl NotFound,
        empty_state\<lparr>calls := calls empty_state @
          [StoreExists (''demo'', ''welcome'', ''jpg'', Some ''small''),
           StoreExists (''demo'', ''welcome'', ''jpg'', None)]\<rparr>)"
proof -
  have a: "demo_projects ''demo'' = Some [''small'' \<mapsto> (100, 100)]"
    by (simp add: demo_projects_def)
  have b: "[''small'' \<mapsto> (100::int, 100::int)] ''small'' = Some (100, 100)" by simp
  have c: "artifacts (storage empty_state) (''demo'', ''welcome'', ''jpg'', Some ''small'') = None"
    by (simp add: empty_state_def)
  have d: "artifacts (storage empty_state) (''demo'', ''welcome'', ''jpg'', None) = None"
    by (simp add: empty_state_def)
  from serve_image_missing_original [where ps = demo_projects and cd = demo_codec, OF a b c d]
    a b c d
  show ?thesis by simp
qed

text \<open>
  C10, as the code has it: there are strictly positive source dimensions and a bounding
  box for which the size calculation returns 0 for one dimension: the source
  \<open>1000 x 1\<close> in the box \<open>100 x 100\<close> gives \<open>(100, 0)\<close>.  A request for a size that is not
  stored yet, over an original for which the calculated size has a dimension 0, asks the
  codec to resize to that size; with a codec that rejects a size with a dimension below
  1 with \<open>ValueError\<close>, as Pillow does, the request fails with \<open>ValueError\<close> after the
  calls recorded and stores nothing.
\<close>

theorem serve_image_zero_dimension:
  assumes "ps project = Some dims" and "dims s = Some box"
    and "artifacts (storage st) (project, name, extension, Some s) = None"
    and "artifacts (storage st) (project, name, extension, None) = Some data"
    and "image_open cd data = Inr im" and "image_size cd im = (w, h)"
    and "calc_size box (w, h) = Inr (out_w, out_h)" and "out_w = 0 \<or> out_h = 0"
    and "\<forall>i z. fst z < 1 \<or> snd z < 1 \<longrightarrow> image_resize cd i z = Inl ValueError"
  shows "calc_size (100, 100) (1000, 1) = Inr (100, 0) \<and>
     serve_image ps cd project name (Some s) extension st =
       (Inl ValueError,
        st\<lparr>calls := calls st @
          [StoreExists (project, name, extension, Some s),
           StoreExists (project, name, extension, None),
           StoreGet (project, name, extension, None),
           CodecOpen,
           CodecResize (out_w, out_h)]\<rparr>)"
proof -
  from assms(8,9) have rej: "image_resize cd im (out_w, out_h) = Inl ValueError"
    by auto
  have "serve_image ps cd project name (Some s) extension st =
       (Inl ValueError,
        st\<lparr>calls := calls st @
          [StoreExists (project, name, extension, Some s),
           StoreExists (project, name, extension, None),
           StoreGet (project, name, extension, None),
           CodecOpen,
           CodecResize (out_w, out_h)]\<rparr>)"
    using assms(1-7) rej
    by (simp add: serve_image_def resize_image_def bind_def storage_exists_def storage_get_def
        store_exists_def store_get_def pure_call_def codec_call_def record_call_def
        dimensions_lookup_def truthy_def size_configured_def)
  with calc_size_line_example show ?thesis by simp
qed

theorem serve_image_zero_dimension_witness:
  "demo_projects ''demo'' = Some [''small'' \<mapsto> (100, 100)] \<and>
   [''small'' \<mapsto> (100::int, 100::int)] ''small'' = Some (100, 100) \<and>
   artifacts (storage line_state) (''demo'', ''line'', ''jpg'', Some ''small'') = None \<and>
   artifacts (storage line_state) (''demo'', ''line'', ''jpg'', None) = Some ''original 1000x1'' \<and>
   image_open demo_codec ''original 1000x1'' = Inr (1000, 1) \<and>
   image_size demo_codec (1000, 1) = (1000, 1) \<and>
   calc_size (100, 100) (1000, 1) = Inr (100, 0) \<and>
   image_resize demo_codec (1000, 1) (100, 0) = Inl ValueError \<and>
   serve_image demo_projects demo_codec ''demo'' ''line'' (Some ''small'') ''jpg'' line_state =
     (Inl ValueError,
      line_state\<lparr>calls := calls line_state @
        [StoreExists (''demo'', ''line'', ''jpg'', Some ''small''),
         StoreExists (''demo'', ''line'', ''jpg'', None),
         StoreGet (''demo'', ''line'', ''jpg'', None),
         CodecOpen,
         CodecResize (100, 0)]\<rparr>)"
proof -
  have a: "demo_projects ''demo'' = Some [''small'' \<mapsto> (100, 100)]"
    by (simp add: demo_projects_def)
  have b: "[''small'' \<mapsto> (100::int, 100::int)] ''small'' = Some (100, 100)" by simp
  have c: "artifacts (storage line_state) (''demo'', ''line'', ''jpg'', Some ''small'') = None"
    by (simp add: line_state_def)
  have d: "artifacts (storage line_state) (''demo'', ''line'', ''jpg'', None)
      = Some ''original 1000x1''"
    by (simp add: line_state_def)
  have e: "image_open demo_codec ''original 1000x1'' = Inr (1000, 1)"
    by (simp add: demo_codec_def)
  have f: "image_size demo_codec (1000, 1) = (1000, 1)" by (simp add: demo_codec_def)
  have g: "calc_size (100, 100) (1000, 1) = Inr (100, 0)" by (rule calc_size_line_example)
  have z: "(100::int) = 0 \<or> (0::int) = 0" by simp
  have r: "\<forall>i z. fst z < 1 \<or> snd z < 1 \<longrightarrow> image_resize demo_codec i z = Inl ValueError"
    by (simp add: demo_codec_def)
  from serve_image_zero_dimension
    [where ps = demo_projects and cd = demo_codec and st = line_state, OF a b c d e f g z r]
    a b c d e f r
  show ?thesis by (simp add: demo_codec_def)
qed

text \<open>
  No variant with a dimension 0 is produced: the request for the size \<open>small\<close> of the
  original of \<open>1000 x 1\<close> fails with \<open>ValueError\<close> and leaves the storage as it was.
\<close>

theorem serve_image_zero_dimension_fails:
  "serve_image demo_projects demo_codec ''demo'' ''line'' (Some ''small'') ''jpg'' line_state
     = (Inl ValueError, line_state_failed) \<and>
   storage line_state_failed = storage line_state \<and>
   artifacts (storage line_state_failed) (''demo'', ''line'', ''jpg'', Some ''small'') = None"
  by (simp add: serve_image_def resize_image_def bind_def storage_exists_def storage_get_def
      store_exists_def store_get_def pure_call_def codec_call_def record_call_def
      dimensions_lookup_def truthy_def size_configured_def demo_projects_def demo_codec_def
      line_state_def line_state_failed_def calc_size_line_example)

section \<open>Properties of the storage\<close>

text \<open>
  C8: \<open>save\<close> to a key replaces what was stored there: a following \<open>get\<close> returns
  exactly the bytes written last, and writing twice leaves the storage as writing the
  last bytes alone does.
\<close>

theorem store_save_overwrites:
  "store_get (store_save s k new) k = Inr \<lparr>target = k, writable = False, buffer = new\<rparr> \<and>
   store_get (store_save (store_save s k old) k new) k
     = Inr \<lparr>target = k, writable = False, buffer = new\<rparr> \<and>
   store_save (store_save s k old) k new = store_save s k new"
  by (simp add: store_get_def store_save_def)



end
